theory Spec2Isabelle
  imports Main "HOL-Library.Sublist" "HOL-Library.List_Lexorder" "HOL-Library.Char_ord"
begin

section \<open>Python strings, as far as \<^verbatim>\<open>rename.py\<close> uses them\<close>

text \<open>
  A Python \<^verbatim>\<open>str\<close> is a sequence of code points. The embedding represents it as a
  \<^typ>\<open>string\<close>, whose characters stand for the code points U+0000 to U+00FF (ASCII and
  the Latin-1 supplement). On this range \<^verbatim>\<open>str.isnumeric\<close>, \<^verbatim>\<open>str.lower\<close>,
  \<^verbatim>\<open>str.zfill\<close> and \<^verbatim>\<open>str.replace\<close> are modelled exactly. \<^verbatim>\<open>str.upper\<close> is
  exact except at U+00B5 and U+00FF, whose upper-case forms lie outside the range: the
  model leaves these two unchanged.
\<close>

abbreviation backslash :: char where
  "backslash \<equiv> CHR 0x5C"

text \<open>\<^verbatim>\<open>s.replace(old, new)\<close>: every non-overlapping occurrence, leftmost first. With an
  empty \<^verbatim>\<open>old\<close> Python inserts \<^verbatim>\<open>new\<close> before every character and at the end.\<close>

fun replace_scan :: "string \<Rightarrow> string \<Rightarrow> string \<Rightarrow> string" where
  "replace_scan old new [] = []"
| "replace_scan old new (c # cs) =
     (if prefix old (c # cs) then new @ replace_scan old new (drop (length old - 1) cs)
      else c # replace_scan old new cs)"

definition py_replace :: "string \<Rightarrow> string \<Rightarrow> string \<Rightarrow> string" where
  "py_replace old new s =
     (if old = [] then new @ concat (map (\<lambda>c. c # new) s) else replace_scan old new s)"

text \<open>The decimal rendering of a non-negative integer, as an f-string produces it.\<close>

definition digit_char :: "nat \<Rightarrow> char" where
  "digit_char d = ''0123456789'' ! d"

function str_of_nat :: "nat \<Rightarrow> string" where
  "str_of_nat n = (if n < 10 then [digit_char n] else str_of_nat (n div 10) @ [digit_char (n mod 10)])"
  by pat_completeness auto
termination
  by (relation "measure id") auto

declare str_of_nat.simps [simp del]

text \<open>Case mapping on U+0000..U+00FF. The upper-case letters of the range are A..Z and
  U+00C0..U+00DE without the multiplication sign U+00D7; the lower-case letters that have
  an upper-case partner in the range are a..z and U+00E0..U+00FE without the division sign
  U+00F7. The sharp s U+00DF becomes \<^verbatim>\<open>SS\<close>.\<close>

definition upper_letters :: "char list" where
  "upper_letters = ''ABCDEFGHIJKLMNOPQRSTUVWXYZ'' @
     [CHR 0xC0, CHR 0xC1, CHR 0xC2, CHR 0xC3, CHR 0xC4, CHR 0xC5, CHR 0xC6, CHR 0xC7,
      CHR 0xC8, CHR 0xC9, CHR 0xCA, CHR 0xCB, CHR 0xCC, CHR 0xCD, CHR 0xCE, CHR 0xCF,
      CHR 0xD0, CHR 0xD1, CHR 0xD2, CHR 0xD3, CHR 0xD4, CHR 0xD5, CHR 0xD6,
      CHR 0xD8, CHR 0xD9, CHR 0xDA, CHR 0xDB, CHR 0xDC, CHR 0xDD, CHR 0xDE]"

definition lower_letters :: "char list" where
  "lower_letters = ''abcdefghijklmnopqrstuvwxyz'' @
     [CHR 0xE0, CHR 0xE1, CHR 0xE2, CHR 0xE3, CHR 0xE4, CHR 0xE5, CHR 0xE6, CHR 0xE7,
      CHR 0xE8, CHR 0xE9, CHR 0xEA, CHR 0xEB, CHR 0xEC, CHR 0xED, CHR 0xEE, CHR 0xEF,
      CHR 0xF0, CHR 0xF1, CHR 0xF2, CHR 0xF3, CHR 0xF4, CHR 0xF5, CHR 0xF6,
      CHR 0xF8, CHR 0xF9, CHR 0xFA, CHR 0xFB, CHR 0xFC, CHR 0xFD, CHR 0xFE]"

definition lower_char :: "char \<Rightarrow> char" where
  "lower_char c = (case map_of (zip upper_letters lower_letters) c of Some d \<Rightarrow> d | None \<Rightarrow> c)"

definition upper_char :: "char \<Rightarrow> string" where
  "upper_char c =
     (if c = CHR 0xDF then ''SS''
      else case map_of (zip lower_letters upper_letters) c of Some d \<Rightarrow> [d] | None \<Rightarrow> [c])"

definition py_lower :: "string \<Rightarrow> string" where
  "py_lower s = map lower_char s"

definition py_upper :: "string \<Rightarrow> string" where
  "py_upper s = concat (map upper_char s)"

text \<open>\<^verbatim>\<open>str.isnumeric\<close>: non-empty, and every character has a Unicode numeric value. On
  the range these are the decimal digits, the superscripts U+00B2, U+00B3, U+00B9 and the
  fractions U+00BC, U+00BD, U+00BE.\<close>

definition numeric_char :: "char \<Rightarrow> bool" where
  "numeric_char c \<longleftrightarrow>
     c \<in> set (''0123456789'' @ [CHR 0xB2, CHR 0xB3, CHR 0xB9, CHR 0xBC, CHR 0xBD, CHR 0xBE])"

definition decimal_digit :: "char \<Rightarrow> bool" where
  "decimal_digit c \<longleftrightarrow> c \<in> set ''0123456789''"

definition py_isnumeric :: "string \<Rightarrow> bool" where
  "py_isnumeric s \<longleftrightarrow> s \<noteq> [] \<and> list_all numeric_char s"

text \<open>\<^verbatim>\<open>s.zfill(width)\<close>: zeros are inserted after a leading sign.\<close>

definition py_zfill :: "string \<Rightarrow> int \<Rightarrow> string" where
  "py_zfill s width =
     (if width \<le> int (length s) then s
      else let fill = replicate (nat (width - int (length s))) (CHR ''0'')
           in (case s of
                 [] \<Rightarrow> fill
               | c # cs \<Rightarrow> if c = CHR ''+'' \<or> c = CHR ''-'' then c # fill @ cs else fill @ s))"

section \<open>Template expansion: \<^verbatim>\<open>expand_replacement\<close>\<close>

text \<open>The group dictionary is a Python \<^verbatim>\<open>dict\<close>; its items are visited in insertion
  order, so it is an association list. A group that did not take part in the match is
  \<^verbatim>\<open>None\<close>.\<close>

type_synonym group_dict = "(nat \<times> string option) list"

text \<open>\<^verbatim>\<open>if group is None or type(group) != str: group = ''\<close>.\<close>

definition group_text :: "string option \<Rightarrow> string" where
  "group_text grp = (case grp of None \<Rightarrow> [] | Some g \<Rightarrow> g)"

text \<open>One round of the loop of \<^verbatim>\<open>expand_replacement\<close>, for one item of the dictionary.\<close>

definition expand_group :: "string \<Rightarrow> nat \<Rightarrow> string option \<Rightarrow> string" where
  "expand_group new_name index grp0 =
     (let grp = group_text grp0;
          n1 = (if sublist [backslash, CHR ''L''] new_name
                then py_replace (backslash # CHR ''L'' # backslash # str_of_nat index) (py_lower grp) new_name
                else new_name);
          n2 = (if sublist [backslash, CHR ''U''] n1
                then py_replace (backslash # CHR ''U'' # backslash # str_of_nat index) (py_upper grp) n1
                else n1)
      in py_replace (backslash # str_of_nat index) grp n2)"

fun expand_loop :: "string \<Rightarrow> group_dict \<Rightarrow> string" where
  "expand_loop new_name [] = new_name"
| "expand_loop new_name ((index, grp) # items) = expand_loop (expand_group new_name index grp) items"

definition expand_replacement :: "string \<Rightarrow> group_dict \<Rightarrow> string" where
  "expand_replacement replacement_pattern group_dict = expand_loop replacement_pattern group_dict"

section \<open>The exceptions\<close>

text \<open>
  Every exception the code can raise: \<^verbatim>\<open>re.error\<close> from the library's pattern compiler
  (\<open>ReError_pattern\<close>) and from its template parser (the other \<open>ReError\<close> values, one for
  each message), \<^verbatim>\<open>IndexError\<close> from the template parser, and the \<^verbatim>\<open>RuntimeError\<close>s and
  the failed assertion of \<^verbatim>\<open>rename.py\<close>.
\<close>

datatype py_error =
    ReError_pattern
  | ReError_bad_escape_end
  | ReError_bad_escape string
  | ReError_missing_lt
  | ReError_missing_group_name
  | ReError_unterminated_name
  | ReError_bad_group_name string
  | ReError_invalid_group_reference nat
  | ReError_octal_out_of_range string
  | IndexError_unknown_group_name string
  | RuntimeError_duplicate_filenames "string option set"
  | RuntimeError_replacement_required
  | AssertionError

section \<open>The standard library's \<^verbatim>\<open>re\<close>: patterns and matching\<close>

text \<open>
  \<^verbatim>\<open>rename.py\<close> hands the pattern string to \<^verbatim>\<open>re.fullmatch\<close> and \<^verbatim>\<open>re.search\<close>, which
  compile it and then match. The library's compiler is not part of the embedding: a
  pattern string is represented by what the compiler makes of it (\<open>py_pattern\<close> below),
  either the \<^verbatim>\<open>re.error\<close> it raises or the compiled pattern, a tree over the constructs
  below (literal characters, the dot, character sets, sequence, alternation, the greedy
  repetitions and capture groups, numbered by their opening parenthesis or named). A
  compiled pattern is matched by backtracking in the library's order of preference: the
  left alternative first, one more repetition before none. Constructs outside this
  fragment are not modelled.
\<close>

datatype regex =
    Eps
  | Chr char
  | AnyChar
  | OneOf "char list"
  | NoneOf "char list"
  | Seq regex regex
  | Alt regex regex
  | Star regex
  | Plus regex
  | Opt regex
  | Group regex
  | NamedGroup string regex

text \<open>The words a pattern denotes. The dot does not match a line feed.\<close>

inductive_set star :: "string set \<Rightarrow> string set" for A :: "string set" where
  star_empty: "[] \<in> star A"
| star_step: "a \<in> A \<Longrightarrow> w \<in> star A \<Longrightarrow> a @ w \<in> star A"

primrec lang :: "regex \<Rightarrow> string set" where
  "lang Eps = {[]}"
| "lang (Chr x) = {[x]}"
| "lang AnyChar = {[c] | c. c \<noteq> CHR 0x0A}"
| "lang (OneOf cs) = {[c] | c. c \<in> set cs}"
| "lang (NoneOf cs) = {[c] | c. c \<notin> set cs}"
| "lang (Seq r1 r2) = {a @ b | a b. a \<in> lang r1 \<and> b \<in> lang r2}"
| "lang (Alt r1 r2) = lang r1 \<union> lang r2"
| "lang (Star r) = star (lang r)"
| "lang (Plus r) = {a @ b | a b. a \<in> lang r \<and> b \<in> star (lang r)}"
| "lang (Opt r) = insert [] (lang r)"
| "lang (Group r) = lang r"
| "lang (NamedGroup name r) = lang r"

text \<open>\<^verbatim>\<open>Pattern.groups\<close> and \<^verbatim>\<open>Pattern.groupindex\<close>: groups are numbered from 1 in the
  order of their opening parentheses.\<close>

primrec ngroups :: "regex \<Rightarrow> nat" where
  "ngroups Eps = 0"
| "ngroups (Chr x) = 0"
| "ngroups AnyChar = 0"
| "ngroups (OneOf cs) = 0"
| "ngroups (NoneOf cs) = 0"
| "ngroups (Seq r1 r2) = ngroups r1 + ngroups r2"
| "ngroups (Alt r1 r2) = ngroups r1 + ngroups r2"
| "ngroups (Star r) = ngroups r"
| "ngroups (Plus r) = ngroups r"
| "ngroups (Opt r) = ngroups r"
| "ngroups (Group r) = Suc (ngroups r)"
| "ngroups (NamedGroup name r) = Suc (ngroups r)"

primrec groupindex_from :: "nat \<Rightarrow> regex \<Rightarrow> (string \<times> nat) list" where
  "groupindex_from b Eps = []"
| "groupindex_from b (Chr x) = []"
| "groupindex_from b AnyChar = []"
| "groupindex_from b (OneOf cs) = []"
| "groupindex_from b (NoneOf cs) = []"
| "groupindex_from b (Seq r1 r2) = groupindex_from b r1 @ groupindex_from (b + ngroups r1) r2"
| "groupindex_from b (Alt r1 r2) = groupindex_from b r1 @ groupindex_from (b + ngroups r1) r2"
| "groupindex_from b (Star r) = groupindex_from b r"
| "groupindex_from b (Plus r) = groupindex_from b r"
| "groupindex_from b (Opt r) = groupindex_from b r"
| "groupindex_from b (Group r) = groupindex_from (Suc b) r"
| "groupindex_from b (NamedGroup name r) = (name, Suc b) # groupindex_from (Suc b) r"

text \<open>
  The backtracking matcher. \<open>rmatch r b s caps\<close> lists, in order of preference, every way
  to match \<open>r\<close> at the start of \<open>s\<close>: the text left over and the captures, where \<open>b\<close>
  groups open before \<open>r\<close> in the pattern and \<open>caps ! k\<close> is the capture of group \<open>k + 1\<close>.
  A repetition whose body matched the empty text is not repeated again.
\<close>

type_synonym captures = "string option list"

primrec rweight :: "regex \<Rightarrow> nat" where
  "rweight Eps = 0"
| "rweight (Chr x) = 0"
| "rweight AnyChar = 0"
| "rweight (OneOf cs) = 0"
| "rweight (NoneOf cs) = 0"
| "rweight (Seq r1 r2) = Suc (rweight r1 + rweight r2)"
| "rweight (Alt r1 r2) = Suc (rweight r1 + rweight r2)"
| "rweight (Star r) = Suc (rweight r)"
| "rweight (Plus r) = Suc (Suc (rweight r))"
| "rweight (Opt r) = Suc (rweight r)"
| "rweight (Group r) = Suc (rweight r)"
| "rweight (NamedGroup name r) = Suc (rweight r)"

function rmatch :: "regex \<Rightarrow> nat \<Rightarrow> string \<Rightarrow> captures \<Rightarrow> (string \<times> captures) list" where
  "rmatch Eps b s caps = [(s, caps)]"
| "rmatch (Chr x) b s caps = (case s of [] \<Rightarrow> [] | y # ys \<Rightarrow> if y = x then [(ys, caps)] else [])"
| "rmatch AnyChar b s caps = (case s of [] \<Rightarrow> [] | y # ys \<Rightarrow> if y \<noteq> CHR 0x0A then [(ys, caps)] else [])"
| "rmatch (OneOf cs) b s caps = (case s of [] \<Rightarrow> [] | y # ys \<Rightarrow> if y \<in> set cs then [(ys, caps)] else [])"
| "rmatch (NoneOf cs) b s caps = (case s of [] \<Rightarrow> [] | y # ys \<Rightarrow> if y \<notin> set cs then [(ys, caps)] else [])"
| "rmatch (Seq r1 r2) b s caps =
     concat (map (\<lambda>p. rmatch r2 (b + ngroups r1) (fst p) (snd p)) (rmatch r1 b s caps))"
| "rmatch (Alt r1 r2) b s caps = rmatch r1 b s caps @ rmatch r2 (b + ngroups r1) s caps"
| "rmatch (Star r) b s caps =
     concat (map (\<lambda>p. if length (fst p) < length s then rmatch (Star r) b (fst p) (snd p) else [p])
                 (rmatch r b s caps)) @ [(s, caps)]"
| "rmatch (Plus r) b s caps =
     concat (map (\<lambda>p. if length (fst p) < length s then rmatch (Star r) b (fst p) (snd p) else [p])
                 (rmatch r b s caps))"
| "rmatch (Opt r) b s caps = rmatch r b s caps @ [(s, caps)]"
| "rmatch (Group r) b s caps =
     map (\<lambda>p. (fst p, (snd p)[b := Some (take (length s - length (fst p)) s)])) (rmatch r (Suc b) s caps)"
| "rmatch (NamedGroup name r) b s caps =
     map (\<lambda>p. (fst p, (snd p)[b := Some (take (length s - length (fst p)) s)])) (rmatch r (Suc b) s caps)"
  by pat_completeness auto
termination
  by (relation "(\<lambda>(r, b, s, caps). rweight r) <*mlex*> measure (\<lambda>(r, b, s, caps). length s)")
     (auto simp: wf_mlex mlex_prod_def)

declare rmatch.simps(8,9) [simp del]

text \<open>The match object: where the match starts, the matched text (group 0), the groups
  (\<^verbatim>\<open>Match.groups()\<close>, \<^verbatim>\<open>None\<close> for a group that took no part) and the pattern's named
  groups.\<close>

record sre_match =
  m_start :: nat
  m_text :: string
  m_groups :: captures
  m_groupindex :: "(string \<times> nat) list"

text \<open>\<^verbatim>\<open>Pattern.fullmatch\<close> of a compiled pattern: the first way of matching that uses up
  the whole string.\<close>

definition pattern_fullmatch :: "regex \<Rightarrow> string \<Rightarrow> sre_match option" where
  "pattern_fullmatch pattern s =
     (case filter (\<lambda>p. fst p = []) (rmatch pattern 0 s (replicate (ngroups pattern) None)) of
        [] \<Rightarrow> None
      | p # _ \<Rightarrow> Some \<lparr>m_start = 0, m_text = s, m_groups = snd p,
                       m_groupindex = groupindex_from 0 pattern\<rparr>)"

text \<open>\<^verbatim>\<open>Pattern.search\<close> of a compiled pattern: the first start position at which the
  pattern matches, and there the preferred way of matching.\<close>

fun search_from :: "regex \<Rightarrow> nat \<Rightarrow> string \<Rightarrow> sre_match option" where
  "search_from pattern pos s =
     (case rmatch pattern 0 s (replicate (ngroups pattern) None) of
        p # _ \<Rightarrow> Some \<lparr>m_start = pos, m_text = take (length s - length (fst p)) s,
                       m_groups = snd p, m_groupindex = groupindex_from 0 pattern\<rparr>
      | [] \<Rightarrow> (case s of [] \<Rightarrow> None | c # cs \<Rightarrow> search_from pattern (Suc pos) cs))"

definition pattern_search :: "regex \<Rightarrow> string \<Rightarrow> sre_match option" where
  "pattern_search pattern s = search_from pattern 0 s"

text \<open>
  A pattern string, as the library's compiler sees it: it does not compile, or it compiles
  to a tree. \<^verbatim>\<open>re.fullmatch\<close> and \<^verbatim>\<open>re.search\<close> take the pattern string, compile it (the
  compiler raises \<^verbatim>\<open>re.error\<close> for a string such as \<^verbatim>\<open>a(\<close>, at every call) and match the
  compiled pattern.
\<close>

datatype py_pattern = Uncompilable | Compiled regex

definition re_fullmatch :: "py_pattern \<Rightarrow> string \<Rightarrow> py_error + sre_match option" where
  "re_fullmatch pattern s =
     (case pattern of
        Uncompilable \<Rightarrow> Inl ReError_pattern
      | Compiled r \<Rightarrow> Inr (pattern_fullmatch r s))"

definition re_search :: "py_pattern \<Rightarrow> string \<Rightarrow> py_error + sre_match option" where
  "re_search pattern s =
     (case pattern of
        Uncompilable \<Rightarrow> Inl ReError_pattern
      | Compiled r \<Rightarrow> Inr (pattern_search r s))"

text \<open>\<^verbatim>\<open>match_regex_string\<close> of \<^verbatim>\<open>rename.py\<close>: it returns the match, or \<^verbatim>\<open>None\<close> when
  there is none, and raises what the library raises.\<close>

definition match_regex_string :: "py_pattern \<Rightarrow> string \<Rightarrow> bool \<Rightarrow> py_error + sre_match option" where
  "match_regex_string pattern filename full =
     (if full then re_fullmatch pattern filename else re_search pattern filename)"

section \<open>The standard library's template parser behind \<^verbatim>\<open>Match.expand\<close>\<close>

text \<open>
  \<^verbatim>\<open>validate_replacement\<close> calls \<^verbatim>\<open>re_match.expand\<close>, which parses the template with
  \<^verbatim>\<open>parse_template\<close> of the library's \<^verbatim>\<open>re._parser\<close> (CPython 3.12) and raises when the
  parser does. The parser is modelled token by token, with its one token of lookahead, so
  that every \<^verbatim>\<open>raise\<close> of it is a branch here.
\<close>

text \<open>The tokenizer's state: its lookahead \<^verbatim>\<open>self.next\<close> and the text not yet read. A
  token is one character, or a backslash with the character after it.\<close>

type_synonym tokenizer = "string option \<times> string"

fun tok_next :: "string \<Rightarrow> py_error + tokenizer" where
  "tok_next [] = Inr (None, [])"
| "tok_next (c # cs) =
     (if c = backslash
      then (case cs of [] \<Rightarrow> Inl ReError_bad_escape_end | d # ds \<Rightarrow> Inr (Some [c, d], ds))
      else Inr (Some [c], cs))"

definition tok_get :: "tokenizer \<Rightarrow> py_error + (string option \<times> tokenizer)" where
  "tok_get t = (case tok_next (snd t) of Inl e \<Rightarrow> Inl e | Inr t' \<Rightarrow> Inr (fst t, t'))"

definition tok_size :: "tokenizer \<Rightarrow> nat" where
  "tok_size t = length (snd t) + (case fst t of None \<Rightarrow> 0 | Some tok \<Rightarrow> 1)"

lemma tok_next_size: "tok_next s = Inr t \<Longrightarrow> tok_size t \<le> length s"
  by (cases s) (auto simp: tok_size_def split: if_splits list.splits)

text \<open>\<^verbatim>\<open>Tokenizer.getuntil(">", "group name")\<close>.\<close>

function getuntil :: "tokenizer \<Rightarrow> string \<Rightarrow> py_error + (string \<times> tokenizer)" where
  "getuntil t result =
     (case tok_next (snd t) of
        Inl e \<Rightarrow> Inl e
      | Inr t' \<Rightarrow>
          (case fst t of
             None \<Rightarrow> if result = [] then Inl ReError_missing_group_name
                     else Inl ReError_unterminated_name
           | Some c \<Rightarrow>
               if c = ''>'' then (if result = [] then Inl ReError_missing_group_name
                                 else Inr (result, t'))
               else getuntil t' (result @ c)))"
  by pat_completeness auto
termination
proof (relation "measure (\<lambda>(t, result). tok_size t)")
  show "wf (measure (\<lambda>(t, result). tok_size t))" by simp
next
  fix t :: tokenizer and result :: string and t' c
  assume "tok_next (snd t) = Inr t'" and "fst t = Some c"
  then show "((t', result @ c), (t, result)) \<in> measure (\<lambda>(t, result). tok_size t)"
    using tok_next_size [of "snd t" t'] by (simp add: tok_size_def)
qed

declare getuntil.simps [simp del]

definition OCTDIGITS :: "char list" where
  "OCTDIGITS = ''01234567''"

definition DIGITS :: "char list" where
  "DIGITS = ''0123456789''"

definition ASCIILETTERS :: "char list" where
  "ASCIILETTERS = ''abcdefghijklmnopqrstuvwxyzABCDEFGHIJKLMNOPQRSTUVWXYZ''"

text \<open>The escapes a template may hold besides group references: \<^verbatim>\<open>\a \b \f \n \r \t \v\<close>
  and the doubled backslash.\<close>

definition ESCAPES :: "(char \<times> char) list" where
  "ESCAPES = [(CHR ''a'', CHR 0x07), (CHR ''b'', CHR 0x08), (CHR ''f'', CHR 0x0C),
              (CHR ''n'', CHR 0x0A), (CHR ''r'', CHR 0x0D), (CHR ''t'', CHR 0x09),
              (CHR ''v'', CHR 0x0B), (backslash, backslash)]"

text \<open>\<^verbatim>\<open>s.next in DIGITS\<close>: the lookahead is a single character of the set.\<close>

definition next_in :: "tokenizer \<Rightarrow> char list \<Rightarrow> bool" where
  "next_in t cs = (case fst t of Some [c] \<Rightarrow> c \<in> set cs | _ \<Rightarrow> False)"

definition digit_val :: "char \<Rightarrow> nat" where
  "digit_val c = of_char c - 48"

definition int_of_digits :: "nat \<Rightarrow> string \<Rightarrow> nat" where
  "int_of_digits base ds = foldl (\<lambda>a c. a * base + digit_val c) 0 ds"

text \<open>\<^verbatim>\<open>str.isidentifier\<close> on U+0000..U+00FF.\<close>

definition id_start :: "char \<Rightarrow> bool" where
  "id_start c \<longleftrightarrow>
     c \<in> set ASCIILETTERS \<or> c = CHR ''_'' \<or> c \<in> {CHR 0xAA, CHR 0xB5, CHR 0xBA} \<or>
     (0xC0 \<le> (of_char c :: nat) \<and> of_char c \<noteq> (0xD7 :: nat) \<and> of_char c \<noteq> (0xF7 :: nat))"

definition id_continue :: "char \<Rightarrow> bool" where
  "id_continue c \<longleftrightarrow> id_start c \<or> c \<in> set DIGITS \<or> c = CHR 0xB7"

definition py_isidentifier :: "string \<Rightarrow> bool" where
  "py_isidentifier s = (case s of [] \<Rightarrow> False | c # cs \<Rightarrow> id_start c \<and> list_all id_continue cs)"

datatype template_item = Literal string | GroupRef nat

text \<open>\<^verbatim>\<open>addgroup\<close>: the check of a reference against \<^verbatim>\<open>pattern.groups\<close>.\<close>

definition addgroup :: "nat \<Rightarrow> nat \<Rightarrow> tokenizer \<Rightarrow> py_error + (template_item \<times> tokenizer)" where
  "addgroup ngrps index t =
     (if index > ngrps then Inl (ReError_invalid_group_reference index) else Inr (GroupRef index, t))"

text \<open>The body of the parser's loop for one token \<open>this\<close>, with the tokenizer after it.\<close>

definition parse_named :: "nat \<Rightarrow> (string \<times> nat) list \<Rightarrow> tokenizer \<Rightarrow> py_error + (template_item \<times> tokenizer)" where
  "parse_named ngrps gindex t =
     (if fst t = Some ''<''
      then (case tok_next (snd t) of
              Inl e \<Rightarrow> Inl e
            | Inr t1 \<Rightarrow>
                (case getuntil t1 [] of
                   Inl e \<Rightarrow> Inl e
                 | Inr (name, t2) \<Rightarrow>
                     if list_all (\<lambda>c. c \<in> set DIGITS) name
                     then addgroup ngrps (int_of_digits 10 name) t2
                     else if \<not> py_isidentifier name then Inl (ReError_bad_group_name name)
                     else (case map_of gindex name of
                             None \<Rightarrow> Inl (IndexError_unknown_group_name name)
                           | Some index \<Rightarrow> addgroup ngrps index t2)))
      else Inl ReError_missing_lt)"

definition parse_zero :: "tokenizer \<Rightarrow> py_error + (template_item \<times> tokenizer)" where
  "parse_zero t =
     (if next_in t OCTDIGITS
      then (case tok_get t of
              Inl e \<Rightarrow> Inl e
            | Inr (d1, t1) \<Rightarrow>
                if next_in t1 OCTDIGITS
                then (case tok_get t1 of
                        Inl e \<Rightarrow> Inl e
                      | Inr (d2, t2) \<Rightarrow>
                          Inr (Literal [char_of (int_of_digits 8 (CHR ''0'' # the d1 @ the d2) mod 256)], t2))
                else Inr (Literal [char_of (int_of_digits 8 (CHR ''0'' # the d1) mod 256)], t1))
      else Inr (Literal [char_of (0 :: nat)], t))"

definition parse_octal3 :: "char \<Rightarrow> string \<Rightarrow> tokenizer \<Rightarrow> py_error + (template_item \<times> tokenizer)" where
  "parse_octal3 c d1 t1 =
     (case tok_get t1 of
        Inl e \<Rightarrow> Inl e
      | Inr (d2, t2) \<Rightarrow>
          (let v = int_of_digits 8 (c # d1 @ the d2)
           in if v > 255
              then Inl (ReError_octal_out_of_range (backslash # c # d1 @ the d2))
              else Inr (Literal [char_of v], t2)))"

definition parse_digit :: "nat \<Rightarrow> char \<Rightarrow> tokenizer \<Rightarrow> py_error + (template_item \<times> tokenizer)" where
  "parse_digit ngrps c t =
     (if next_in t DIGITS
      then (case tok_get t of
              Inl e \<Rightarrow> Inl e
            | Inr (d1, t1) \<Rightarrow>
                if c \<in> set OCTDIGITS \<and> hd (the d1) \<in> set OCTDIGITS \<and> next_in t1 OCTDIGITS
                then parse_octal3 c (the d1) t1
                else addgroup ngrps (int_of_digits 10 (c # the d1)) t1)
      else addgroup ngrps (int_of_digits 10 [c]) t)"

definition parse_item :: "nat \<Rightarrow> (string \<times> nat) list \<Rightarrow> string \<Rightarrow> tokenizer \<Rightarrow> py_error + (template_item \<times> tokenizer)" where
  "parse_item ngrps gindex this t =
     (if hd this = backslash
      then (let c = this ! 1
            in if c = CHR ''g'' then parse_named ngrps gindex t
               else if c = CHR ''0'' then parse_zero t
               else if c \<in> set DIGITS then parse_digit ngrps c t
               else (case map_of ESCAPES c of
                       Some x \<Rightarrow> Inr (Literal [x], t)
                     | None \<Rightarrow> if c \<in> set ASCIILETTERS then Inl (ReError_bad_escape this)
                               else Inr (Literal this, t)))
      else Inr (Literal this, t))"

text \<open>The parser's loop ends because every token fetched shortens what is left to read.\<close>

lemma tok_get_size: "tok_get t = Inr (x, t') \<Longrightarrow> tok_size t' \<le> tok_size t"
  using tok_next_size [of "snd t" t']
  by (auto simp: tok_get_def tok_size_def split: sum.splits)

lemma tok_get_size_strict: "tok_get t = Inr (Some x, t') \<Longrightarrow> tok_size t' < tok_size t"
  using tok_next_size [of "snd t" t']
  by (auto simp: tok_get_def tok_size_def split: sum.splits)

lemma getuntil_size: "getuntil t result = Inr (name, t') \<Longrightarrow> tok_size t' \<le> tok_size t"
proof (induction t result rule: getuntil.induct)
  case (1 t result)
  from "1.prems" obtain t1 where t1: "tok_next (snd t) = Inr t1"
    by (subst (asm) getuntil.simps) (auto split: sum.splits)
  from "1.prems" t1 obtain c where c: "fst t = Some c"
    by (subst (asm) getuntil.simps) (auto split: option.splits if_splits)
  have le: "tok_size t1 \<le> tok_size t"
    using tok_next_size [OF t1] by (simp add: tok_size_def)
  show ?case
  proof (cases "c = ''>''")
    case True
    with "1.prems" t1 c have "t' = t1"
      by (subst (asm) getuntil.simps) (auto split: if_splits)
    with le show ?thesis by simp
  next
    case False
    with "1.prems" t1 c have "getuntil t1 (result @ c) = Inr (name, t')"
      by (subst (asm) getuntil.simps) auto
    from "1.IH" [OF t1 c False this] le show ?thesis by simp
  qed
qed

lemma addgroup_size: "addgroup n i t = Inr (item, t') \<Longrightarrow> t' = t"
  by (auto simp: addgroup_def split: if_splits)

lemma parse_named_size: "parse_named n gi t = Inr (item, t') \<Longrightarrow> tok_size t' \<le> tok_size t"
proof -
  assume a: "parse_named n gi t = Inr (item, t')"
  from a obtain t1 where t1: "tok_next (snd t) = Inr t1"
    by (auto simp: parse_named_def split: if_splits sum.splits)
  from a t1 obtain name t2 where g: "getuntil t1 [] = Inr (name, t2)"
    by (auto simp: parse_named_def split: if_splits sum.splits)
  from a t1 g have "t' = t2"
    by (auto simp: parse_named_def split: if_splits option.splits dest!: addgroup_size)
  with tok_next_size [OF t1] getuntil_size [OF g] show ?thesis by (simp add: tok_size_def)
qed

lemma parse_zero_size: "parse_zero t = Inr (item, t') \<Longrightarrow> tok_size t' \<le> tok_size t"
  by (auto simp: parse_zero_def split: if_splits sum.splits dest!: tok_get_size)

lemma parse_octal3_size: "parse_octal3 c d1 t = Inr (item, t') \<Longrightarrow> tok_size t' \<le> tok_size t"
  by (auto simp: parse_octal3_def Let_def split: if_splits sum.splits dest!: tok_get_size)

lemma parse_digit_size: "parse_digit n c t = Inr (item, t') \<Longrightarrow> tok_size t' \<le> tok_size t"
  by (auto simp: parse_digit_def split: if_splits sum.splits
           dest!: tok_get_size addgroup_size parse_octal3_size)

lemma parse_item_size: "parse_item n gi this t = Inr (item, t') \<Longrightarrow> tok_size t' \<le> tok_size t"
  by (auto simp: parse_item_def Let_def split: if_splits option.splits
           dest: parse_named_size parse_zero_size parse_digit_size)

function parse_loop :: "nat \<Rightarrow> (string \<times> nat) list \<Rightarrow> tokenizer \<Rightarrow> py_error + template_item list" where
  "parse_loop ngrps gindex t =
     (case tok_get t of
        Inl e \<Rightarrow> Inl e
      | Inr (None, t1) \<Rightarrow> Inr []
      | Inr (Some this, t1) \<Rightarrow>
          (case parse_item ngrps gindex this t1 of
             Inl e \<Rightarrow> Inl e
           | Inr (item, t2) \<Rightarrow>
               (case parse_loop ngrps gindex t2 of
                  Inl e \<Rightarrow> Inl e
                | Inr items \<Rightarrow> Inr (item # items))))"
  by pat_completeness auto
termination
proof (relation "measure (\<lambda>(ngrps, gindex, t). tok_size t)")
  show "wf (measure (\<lambda>(ngrps, gindex, t). tok_size t))" by simp
next
  fix ngrps :: nat and gindex :: "(string \<times> nat) list" and t :: tokenizer
    and b x21 x22 this c x y
  assume "tok_get t = Inr b" "(x21, x22) = b" "x21 = Some this"
    "parse_item ngrps gindex this x22 = Inr c" "(x, y) = c"
  then show "((ngrps, gindex, y), (ngrps, gindex, t)) \<in> measure (\<lambda>(ngrps, gindex, t). tok_size t)"
    using tok_get_size_strict [of t this x22] parse_item_size [of ngrps gindex this x22 x y]
    by auto
qed

declare parse_loop.simps [simp del]

definition parse_template :: "nat \<Rightarrow> (string \<times> nat) list \<Rightarrow> string \<Rightarrow> py_error + template_item list" where
  "parse_template ngrps gindex source =
     (case tok_next source of Inl e \<Rightarrow> Inl e | Inr t \<Rightarrow> parse_loop ngrps gindex t)"

text \<open>The group numbers a parsed template refers to.\<close>

fun group_refs :: "template_item list \<Rightarrow> nat list" where
  "group_refs [] = []"
| "group_refs (Literal s # items) = group_refs items"
| "group_refs (GroupRef i # items) = i # group_refs items"

text \<open>
  \<^verbatim>\<open>Match.expand(template)\<close>: the parsed template with every group reference replaced by
  the group's text, the empty text for a group that took no part in the match. Group 0 is
  the whole match.
\<close>

definition match_group :: "sre_match \<Rightarrow> nat \<Rightarrow> string option" where
  "match_group m index = (if index = 0 then Some (m_text m) else m_groups m ! (index - 1))"

definition match_expand :: "sre_match \<Rightarrow> string \<Rightarrow> py_error + string" where
  "match_expand m template =
     (case parse_template (length (m_groups m)) (m_groupindex m) template of
        Inl e \<Rightarrow> Inl e
      | Inr items \<Rightarrow>
          Inr (concat (map (\<lambda>item. case item of
                               Literal s \<Rightarrow> s
                             | GroupRef i \<Rightarrow> group_text (match_group m i))
                           items)))"

section \<open>\<^verbatim>\<open>rename.py\<close>\<close>

text \<open>\<^verbatim>\<open>validate_replacement\<close>: the template without its \<^verbatim>\<open>\L\<close> and \<^verbatim>\<open>\U\<close> markers must
  expand; the expansion itself is thrown away.\<close>

definition simplified_template :: "string \<Rightarrow> string" where
  "simplified_template replacement_pattern =
     py_replace [backslash, CHR ''U''] [] (py_replace [backslash, CHR ''L''] [] replacement_pattern)"

definition validate_replacement :: "sre_match \<Rightarrow> string \<Rightarrow> py_error + unit" where
  "validate_replacement re_match replacement_pattern =
     (case match_expand re_match (simplified_template replacement_pattern) of
        Inl e \<Rightarrow> Inl e
      | Inr expanded \<Rightarrow> Inr ())"

text \<open>
  Modelled from the spec: the class \<^verbatim>\<open>Match\<close> of \<^verbatim>\<open>regex_rename.match\<close>, which is not among
  the sources. The spec's data model gives it the source name, the optional target name,
  the groups after padding and the underlying match; its \<^verbatim>\<open>log_info\<close> only reports and
  has no part in the control flow, so the embedding leaves it out.
\<close>

record Match =
  name_from :: string
  name_to :: "string option"
  groups :: group_dict
  re_match :: sre_match

text \<open>The padding loop of \<^verbatim>\<open>match_filename\<close>, for one group: a group that is a string
  and numeric is filled with zeros.\<close>

definition pad_group :: "int \<Rightarrow> string option \<Rightarrow> string option" where
  "pad_group padding grp =
     (case grp of
        None \<Rightarrow> None
      | Some g \<Rightarrow> if py_isnumeric g then Some (py_zfill g padding) else Some g)"

text \<open>A replacement pattern counts as given when it is neither \<^verbatim>\<open>None\<close> nor empty.\<close>

definition truthy :: "string option \<Rightarrow> bool" where
  "truthy replacement_pattern \<longleftrightarrow> replacement_pattern \<noteq> None \<and> replacement_pattern \<noteq> Some []"

definition match_filename ::
  "string \<Rightarrow> py_pattern \<Rightarrow> string option \<Rightarrow> bool \<Rightarrow> int \<Rightarrow> py_error + Match option" where
  "match_filename filename pattern replacement_pattern full padding =
     (case match_regex_string pattern filename full of
        Inl e \<Rightarrow> Inl e
      | Inr None \<Rightarrow> Inr None
      | Inr (Some rm) \<Rightarrow>
          (let group_dict0 = enumerate 1 (m_groups rm);
               group_dict = (if padding \<noteq> 0
                             then map (\<lambda>(index, grp). (index, pad_group padding grp)) group_dict0
                             else group_dict0)
           in if \<not> truthy replacement_pattern
              then Inr (Some \<lparr>name_from = filename, name_to = None, groups = group_dict, re_match = rm\<rparr>)
              else (case validate_replacement rm (the replacement_pattern) of
                      Inl e \<Rightarrow> Inl e
                    | Inr u \<Rightarrow>
                        Inr (Some \<lparr>name_from = filename,
                                   name_to = Some (expand_replacement (the replacement_pattern) group_dict),
                                   groups = group_dict, re_match = rm\<rparr>))))"

text \<open>
  The directory the tool runs in, as \<^verbatim>\<open>list_files\<close> sees it: the regular files directly
  in it and the regular files anywhere below it, each as a relative path. The listing is a
  call into \<^verbatim>\<open>pathlib\<close>; failures of the file system are outside the embedding.
\<close>

record directory =
  direct_files :: "string list"
  all_files :: "string list"

definition list_files :: "directory \<Rightarrow> bool \<Rightarrow> string list" where
  "list_files path recursive = (if recursive then all_files path else direct_files path)"

text \<open>The list comprehension of \<^verbatim>\<open>match_files\<close>: the first exception ends it.\<close>

fun match_each ::
  "string list \<Rightarrow> py_pattern \<Rightarrow> string option \<Rightarrow> bool \<Rightarrow> int \<Rightarrow> py_error + Match option list" where
  "match_each [] pattern replacement_pattern full padding = Inr []"
| "match_each (filename # filenames) pattern replacement_pattern full padding =
     (case match_filename filename pattern replacement_pattern full padding of
        Inl e \<Rightarrow> Inl e
      | Inr m \<Rightarrow>
          (case match_each filenames pattern replacement_pattern full padding of
             Inl e \<Rightarrow> Inl e
           | Inr ms \<Rightarrow> Inr (m # ms)))"

definition match_files ::
  "directory \<Rightarrow> py_pattern \<Rightarrow> string option \<Rightarrow> bool \<Rightarrow> bool \<Rightarrow> int \<Rightarrow> py_error + Match list" where
  "match_files path pattern replacement_pattern recursive full padding =
     (let files = list_files path recursive;
          filenames = sort files
      in case match_each filenames pattern replacement_pattern full padding of
           Inl e \<Rightarrow> Inl e
         | Inr matches \<Rightarrow> Inr (List.map_filter (\<lambda>m. m) matches))"

text \<open>\<^verbatim>\<open>find_duplicates\<close>: the names that occur more than once among the targets; the
  exception carries them.\<close>

definition find_duplicates :: "Match list \<Rightarrow> py_error option" where
  "find_duplicates matches =
     (let names = map name_to matches;
          duplicates = set (filter (\<lambda>name. count_list names name > 1) names)
      in if duplicates \<noteq> {} then Some (RuntimeError_duplicate_filenames duplicates) else None)"

text \<open>
  \<^verbatim>\<open>rename_matches\<close>. What it does to the file system is recorded as the list of the calls
  it makes, in order: for each match the creation of the target's parent directories and
  the rename. The assertion on \<^verbatim>\<open>name_to\<close> fails for \<^verbatim>\<open>None\<close> and for the empty name.
\<close>

datatype fs_call = Mkdir_parents_of string | Rename string string

fun rename_matches :: "Match list \<Rightarrow> py_error option \<times> fs_call list" where
  "rename_matches [] = (None, [])"
| "rename_matches (m # ms) =
     (if \<not> truthy (name_to m) then (Some AssertionError, [])
      else (let target = the (name_to m);
                rest = rename_matches ms
            in (fst rest, Mkdir_parents_of target # Rename (name_from m) target # snd rest)))"

text \<open>\<^verbatim>\<open>bulk_rename\<close>, in the directory \<open>cwd\<close>: what it returns or raises, and the calls it
  made to the file system.\<close>

definition bulk_rename ::
  "directory \<Rightarrow> py_pattern \<Rightarrow> string option \<Rightarrow> bool \<Rightarrow> bool \<Rightarrow> bool \<Rightarrow> int \<Rightarrow>
     (py_error + Match list) \<times> fs_call list" where
  "bulk_rename cwd pattern replacement_pattern testing full recursive padding =
     (case match_files cwd pattern replacement_pattern recursive full padding of
        Inl e \<Rightarrow> (Inl e, [])
      | Inr matches \<Rightarrow>
          (case (if truthy replacement_pattern then find_duplicates matches else None) of
             Some e \<Rightarrow> (Inl e, [])
           | None \<Rightarrow>
               if testing then (Inr matches, [])
               else if truthy replacement_pattern
               then (case rename_matches matches of
                       (Some e, calls) \<Rightarrow> (Inl e, calls)
                     | (None, calls) \<Rightarrow> (Inr matches, calls))
               else (Inl RuntimeError_replacement_required, [])))"

section \<open>Patterns and a directory for worked examples\<close>

text \<open>The spec's end-to-end scenario: the files \<^verbatim>\<open>a1.txt\<close>, \<^verbatim>\<open>a2.txt\<close>, \<^verbatim>\<open>b1.txt\<close> and the
  pattern \<^verbatim>\<open>a(\d)\.txt\<close>; and its padding scenario, the pattern \<^verbatim>\<open>item(\d+)\.txt\<close>.\<close>

definition digit_class :: regex where
  "digit_class = OneOf ''0123456789''"

definition dot_txt :: regex where
  "dot_txt = Seq (Chr (CHR ''.'')) (Seq (Chr (CHR ''t'')) (Seq (Chr (CHR ''x'')) (Chr (CHR ''t''))))"

definition pattern_a_digit :: regex where
  "pattern_a_digit = Seq (Chr (CHR ''a'')) (Seq (Group digit_class) dot_txt)"

fun lit :: "string \<Rightarrow> regex" where
  "lit [] = Eps"
| "lit (c # cs) = Seq (Chr c) (lit cs)"

definition pattern_item :: regex where
  "pattern_item = Seq (lit ''item'') (Seq (Group (Plus digit_class)) dot_txt)"

fun seqs :: "regex list \<Rightarrow> regex" where
  "seqs [] = Eps"
| "seqs (r # rs) = Seq r (seqs rs)"

text \<open>A pattern with ten groups, \<^verbatim>\<open>(\\2)(x)(a)(a)(a)(a)(a)(a)(a)(a)\<close>, whose first group matches
  a backslash and the digit 2; and the pattern \<^verbatim>\<open>(x)?y\<close>, whose group need not take part.\<close>

definition pattern_ten_groups :: regex where
  "pattern_ten_groups =
     seqs (Group (lit [backslash, CHR ''2'']) # Group (Chr (CHR ''x'')) # replicate 8 (Group (Chr (CHR ''a''))))"

definition pattern_opt_x_y :: regex where
  "pattern_opt_x_y = Seq (Opt (Group (Chr (CHR ''x'')))) (Chr (CHR ''y''))"

text \<open>The pattern \<^verbatim>\<open>(A)(b)(c)(d)(e)(f)(g)(h)(i)(J)?\<close>: ten groups, the tenth optional.\<close>

definition pattern_tenth_optional :: regex where
  "pattern_tenth_optional =
     seqs (map (\<lambda>c. Group (Chr c)) ''Abcdefghi'' @ [Opt (Group (Chr (CHR ''J'')))])"

definition scenario_dir :: directory where
  "scenario_dir = \<lparr>direct_files = [''b1.txt'', ''a2.txt'', ''a1.txt''],
                   all_files = [''b1.txt'', ''a2.txt'', ''a1.txt'']\<rparr>"

section \<open>Templates in the form the spec describes\<close>

text \<open>
  The spec's glossary describes a replacement template as text with back-references
  \<^verbatim>\<open>\N\<close> and optional case directives \<^verbatim>\<open>\L\N\<close>, \<^verbatim>\<open>\U\N\<close>. These definitions follow the
  spec's words, not the code: a template as a list of pieces, the string it is written as,
  and what each piece ought to become. They serve to state what \<^verbatim>\<open>expand_replacement\<close>
  computes on such templates.
\<close>

datatype piece = Text char | Plain nat | Lower nat | Upper nat

fun render_piece :: "piece \<Rightarrow> string" where
  "render_piece (Text c) = [c]"
| "render_piece (Plain i) = backslash # str_of_nat i"
| "render_piece (Lower i) = backslash # CHR ''L'' # backslash # str_of_nat i"
| "render_piece (Upper i) = backslash # CHR ''U'' # backslash # str_of_nat i"

definition render :: "piece list \<Rightarrow> string" where
  "render ps = concat (map render_piece ps)"

text \<open>A piece is plain text other than a backslash, or refers to a group of the pattern
  by a single digit.\<close>

fun piece_ok :: "nat \<Rightarrow> piece \<Rightarrow> bool" where
  "piece_ok n (Text c) \<longleftrightarrow> c \<noteq> backslash"
| "piece_ok n (Plain i) \<longleftrightarrow> 1 \<le> i \<and> i \<le> 9 \<and> i \<le> n"
| "piece_ok n (Lower i) \<longleftrightarrow> 1 \<le> i \<and> i \<le> 9 \<and> i \<le> n"
| "piece_ok n (Upper i) \<longleftrightarrow> 1 \<le> i \<and> i \<le> 9 \<and> i \<le> n"

fun resolve :: "string option list \<Rightarrow> piece \<Rightarrow> string" where
  "resolve gs (Text c) = [c]"
| "resolve gs (Plain i) = group_text (gs ! (i - 1))"
| "resolve gs (Lower i) = py_lower (group_text (gs ! (i - 1)))"
| "resolve gs (Upper i) = py_upper (group_text (gs ! (i - 1)))"

text \<open>Auxiliary notions for the rounds of the loop: a piece still to be resolved when the
  round of group \<open>k\<close> starts and \<open>n\<close> groups are left, and one round on one piece.\<close>

fun piece_pending :: "nat \<Rightarrow> nat \<Rightarrow> piece \<Rightarrow> bool" where
  "piece_pending k n (Text c) \<longleftrightarrow> c \<noteq> backslash"
| "piece_pending k n (Plain i) \<longleftrightarrow> k \<le> i \<and> i \<le> 9 \<and> i < k + n"
| "piece_pending k n (Lower i) \<longleftrightarrow> k \<le> i \<and> i \<le> 9 \<and> i < k + n"
| "piece_pending k n (Upper i) \<longleftrightarrow> k \<le> i \<and> i \<le> 9 \<and> i < k + n"

definition is_ref :: "nat \<Rightarrow> piece \<Rightarrow> bool" where
  "is_ref i t \<longleftrightarrow> t = Plain i \<or> t = Lower i \<or> t = Upper i"

definition subst1 :: "piece \<Rightarrow> string \<Rightarrow> piece \<Rightarrow> piece list" where
  "subst1 t new p = (if p = t then map Text new else [p])"

fun subst_piece :: "nat \<Rightarrow> string \<Rightarrow> piece \<Rightarrow> piece list" where
  "subst_piece i g (Text c) = [Text c]"
| "subst_piece i g (Plain j) = (if j = i then map Text g else [Plain j])"
| "subst_piece i g (Lower j) = (if j = i then map Text (py_lower g) else [Lower j])"
| "subst_piece i g (Upper j) = (if j = i then map Text (py_upper g) else [Upper j])"

fun resolve_from :: "nat \<Rightarrow> string option list \<Rightarrow> piece \<Rightarrow> string" where
  "resolve_from k gs (Text c) = [c]"
| "resolve_from k gs (Plain i) = group_text (gs ! (i - k))"
| "resolve_from k gs (Lower i) = py_lower (group_text (gs ! (i - k)))"
| "resolve_from k gs (Upper i) = py_upper (group_text (gs ! (i - k)))"

section \<open>The matcher finds exactly the words of the pattern\<close>

text \<open>Soundness and completeness of the backtracking matcher with respect to the language
  of the pattern, and what they give for \<^verbatim>\<open>re.fullmatch\<close> and \<^verbatim>\<open>re.search\<close>.\<close>


lemma star_single: "a \<in> A \<Longrightarrow> a \<in> star A"
  using star_step [OF _ star_empty, of a A] by simp

lemma star_nonempty_decomp:
  "w \<in> star A \<Longrightarrow> w \<noteq> [] \<Longrightarrow> \<exists>a v. w = a @ v \<and> a \<in> A \<and> a \<noteq> [] \<and> v \<in> star A"
proof (induction rule: star.induct)
  case star_empty
  then show ?case by simp
next
  case (star_step a w)
  show ?case
  proof (cases "a = []")
    case True
    with star_step show ?thesis by simp
  next
    case False
    have "a @ w = a @ w \<and> a \<in> A \<and> a \<noteq> [] \<and> w \<in> star A"
      using False star_step.hyps by simp
    then show ?thesis by (intro exI)
  qed
qed

lemma in_concat_map:
  "p \<in> set (concat (map f xs)) \<longleftrightarrow> (\<exists>q \<in> set xs. p \<in> set (f q))"
  by auto

declare rmatch.simps(8,9) [simp del]

lemma rmatch_Star_iff:
  "p \<in> set (rmatch (Star r) b s caps) \<longleftrightarrow>
     p = (s, caps) \<or>
     (\<exists>q \<in> set (rmatch r b s caps).
        p \<in> set (if length (fst q) < length s then rmatch (Star r) b (fst q) (snd q) else [q]))"
  by (subst rmatch.simps(8)) (auto simp: in_concat_map)

lemma rmatch_Plus_iff:
  "p \<in> set (rmatch (Plus r) b s caps) \<longleftrightarrow>
     (\<exists>q \<in> set (rmatch r b s caps).
        p \<in> set (if length (fst q) < length s then rmatch (Star r) b (fst q) (snd q) else [q]))"
  by (subst rmatch.simps(9)) (auto simp: in_concat_map)

lemma rmatch_one_char:
  assumes "p \<in> set (case s of [] \<Rightarrow> [] | y # ys \<Rightarrow> if P y then [(ys, caps)] else [])"
  shows "\<exists>c. P c \<and> s = [c] @ fst p"
  using assms by (cases s) (auto split: if_splits)

lemma rmatch_sound:
  "p \<in> set (rmatch r b s caps) \<Longrightarrow> \<exists>w. s = w @ fst p \<and> w \<in> lang r"
proof (induction r b s caps arbitrary: p rule: rmatch.induct)
  case (1 b s caps)
  then show ?case by simp
next
  case (2 x b s caps)
  from rmatch_one_char [where p = p and s = s and caps = caps and P = "\<lambda>y. y = x"] "2.prems"
  obtain c where "c = x" "s = [c] @ fst p" by auto
  then have "s = [x] @ fst p \<and> [x] \<in> lang (Chr x)" by simp
  then show ?case by (rule exI)
next
  case (3 b s caps)
  from rmatch_one_char [where p = p and s = s and caps = caps and P = "\<lambda>y. y \<noteq> CHR 0x0A"] "3.prems"
  obtain c where "c \<noteq> CHR 0x0A" "s = [c] @ fst p" by auto
  then have "s = [c] @ fst p \<and> [c] \<in> lang AnyChar" by simp
  then show ?case by (rule exI)
next
  case (4 cs b s caps)
  from rmatch_one_char [where p = p and s = s and caps = caps and P = "\<lambda>y. y \<in> set cs"] "4.prems"
  obtain c where "c \<in> set cs" "s = [c] @ fst p" by auto
  then have "s = [c] @ fst p \<and> [c] \<in> lang (OneOf cs)" by simp
  then show ?case by (rule exI)
next
  case (5 cs b s caps)
  from rmatch_one_char [where p = p and s = s and caps = caps and P = "\<lambda>y. y \<notin> set cs"] "5.prems"
  obtain c where "c \<notin> set cs" "s = [c] @ fst p" by auto
  then have "s = [c] @ fst p \<and> [c] \<in> lang (NoneOf cs)" by simp
  then show ?case by (rule exI)
next
  case (6 r1 r2 b s caps)
  from "6.prems" obtain q where q: "q \<in> set (rmatch r1 b s caps)"
    and p: "p \<in> set (rmatch r2 (b + ngroups r1) (fst q) (snd q))"
    by (auto simp: in_concat_map)
  from "6.IH"(1) [OF q] obtain w1 where w1: "s = w1 @ fst q" "w1 \<in> lang r1" by blast
  from "6.IH"(2) [OF q p] obtain w2 where w2: "fst q = w2 @ fst p" "w2 \<in> lang r2" by blast
  from w1 w2 have "s = (w1 @ w2) @ fst p \<and> w1 @ w2 \<in> lang (Seq r1 r2)" by auto
  then show ?case by (rule exI)
next
  case (7 r1 r2 b s caps)
  from "7.prems" have "p \<in> set (rmatch r1 b s caps) \<or> p \<in> set (rmatch r2 (b + ngroups r1) s caps)"
    by simp
  then show ?case
  proof
    assume "p \<in> set (rmatch r1 b s caps)"
    from "7.IH"(1) [OF this] obtain w where "s = w @ fst p" "w \<in> lang r1" by blast
    then have "s = w @ fst p \<and> w \<in> lang (Alt r1 r2)" by simp
    then show ?thesis by (rule exI)
  next
    assume "p \<in> set (rmatch r2 (b + ngroups r1) s caps)"
    from "7.IH"(2) [OF this] obtain w where "s = w @ fst p" "w \<in> lang r2" by blast
    then have "s = w @ fst p \<and> w \<in> lang (Alt r1 r2)" by simp
    then show ?thesis by (rule exI)
  qed
next
  case (8 r b s caps)
  show ?case
  proof (cases "p = (s, caps)")
    case True
    then have "s = [] @ fst p \<and> [] \<in> lang (Star r)" by (simp add: star_empty)
    then show ?thesis by (rule exI)
  next
    case False
    with "8.prems" obtain q where q: "q \<in> set (rmatch r b s caps)"
      and p: "p \<in> set (if length (fst q) < length s then rmatch (Star r) b (fst q) (snd q) else [q])"
      unfolding rmatch_Star_iff [of p r b s caps] by blast
    from "8.IH"(1) [OF q] obtain w1 where w1: "s = w1 @ fst q" "w1 \<in> lang r" by blast
    show ?thesis
    proof (cases "length (fst q) < length s")
      case True
      with p have "p \<in> set (rmatch (Star r) b (fst q) (snd q))" by simp
      from "8.IH"(2) [OF q True this] obtain w2 where w2: "fst q = w2 @ fst p" "w2 \<in> star (lang r)"
        by auto
      from w1 w2 have "s = (w1 @ w2) @ fst p \<and> w1 @ w2 \<in> lang (Star r)"
        by (simp add: star_step)
      then show ?thesis by (rule exI)
    next
      case False
      with p have "p = q" by simp
      with w1 have "s = w1 @ fst p \<and> w1 \<in> lang (Star r)" by (simp add: star_single)
      then show ?thesis by (rule exI)
    qed
  qed
next
  case (9 r b s caps)
  from "9.prems" obtain q where q: "q \<in> set (rmatch r b s caps)"
    and p: "p \<in> set (if length (fst q) < length s then rmatch (Star r) b (fst q) (snd q) else [q])"
    unfolding rmatch_Plus_iff [of p r b s caps] by blast
  from "9.IH"(1) [OF q] obtain w1 where w1: "s = w1 @ fst q" "w1 \<in> lang r" by blast
  show ?case
  proof (cases "length (fst q) < length s")
    case True
    with p have "p \<in> set (rmatch (Star r) b (fst q) (snd q))" by simp
    from "9.IH"(2) [OF q True this] obtain w2 where w2: "fst q = w2 @ fst p" "w2 \<in> star (lang r)"
      by auto
    from w1 w2 have "w1 @ w2 \<in> lang (Plus r)" by auto
    with w1 w2 have "s = (w1 @ w2) @ fst p \<and> w1 @ w2 \<in> lang (Plus r)" by simp
    then show ?thesis by (rule exI)
  next
    case False
    with p have "p = q" by simp
    moreover from w1 have "\<exists>a b. w1 = a @ b \<and> a \<in> lang r \<and> b \<in> star (lang r)"
      by (intro exI [of _ w1] exI [of _ "[]"]) (simp add: star_empty)
    then have "w1 \<in> lang (Plus r)" by simp
    ultimately have "s = w1 @ fst p \<and> w1 \<in> lang (Plus r)" using w1 by simp
    then show ?thesis by (rule exI)
  qed
next
  case (10 r b s caps)
  show ?case
  proof (cases "p = (s, caps)")
    case True
    then have "s = [] @ fst p \<and> [] \<in> lang (Opt r)" by simp
    then show ?thesis by (rule exI)
  next
    case False
    with "10.prems" have "p \<in> set (rmatch r b s caps)" by simp
    from "10.IH" [OF this] obtain w where "s = w @ fst p" "w \<in> lang r" by blast
    then have "s = w @ fst p \<and> w \<in> lang (Opt r)" by simp
    then show ?thesis by (rule exI)
  qed
next
  case (11 r b s caps)
  from "11.prems" obtain q where q: "q \<in> set (rmatch r (Suc b) s caps)" and "fst p = fst q"
    by auto
  from "11.IH" [OF q] obtain w where "s = w @ fst q" "w \<in> lang r" by blast
  with \<open>fst p = fst q\<close> have "s = w @ fst p \<and> w \<in> lang (Group r)" by simp
  then show ?case by (rule exI)
next
  case (12 name r b s caps)
  from "12.prems" obtain q where q: "q \<in> set (rmatch r (Suc b) s caps)" and "fst p = fst q"
    by auto
  from "12.IH" [OF q] obtain w where "s = w @ fst q" "w \<in> lang r" by blast
  with \<open>fst p = fst q\<close> have "s = w @ fst p \<and> w \<in> lang (NamedGroup name r)" by simp
  then show ?case by (rule exI)
qed

lemma rmatch_star_complete:
  assumes body: "\<And>w s' caps. w \<in> lang r \<Longrightarrow> \<exists>c'. (s', c') \<in> set (rmatch r b (w @ s') caps)"
  shows "w \<in> star (lang r) \<Longrightarrow> \<exists>c'. (s', c') \<in> set (rmatch (Star r) b (w @ s') caps)"
proof (induction "length w" arbitrary: w caps rule: less_induct)
  case less
  show ?case
  proof (cases "w = []")
    case True
    have "(s', caps) \<in> set (rmatch (Star r) b ([] @ s') caps)"
      by (simp add: rmatch_Star_iff)
    with True show ?thesis by blast
  next
    case False
    from star_nonempty_decomp [OF less.prems False]
    obtain a v where av: "w = a @ v" "a \<in> lang r" "a \<noteq> []" "v \<in> star (lang r)" by blast
    from body [OF av(2), of "v @ s'" caps]
    obtain c1 where c1: "(v @ s', c1) \<in> set (rmatch r b (a @ v @ s') caps)" by blast
    from av have "length v < length w" by simp
    from less.hyps [OF this av(4), of c1]
    obtain c' where c': "(s', c') \<in> set (rmatch (Star r) b (v @ s') c1)" by blast
    have len: "length (v @ s') < length (a @ v @ s')" using av by simp
    have "(s', c') \<in> set (rmatch (Star r) b (a @ v @ s') caps)"
      unfolding rmatch_Star_iff [of "(s', c')" r b "a @ v @ s'" caps]
      using c1 c' len by (intro disjI2 bexI [of _ "(v @ s', c1)"]) simp_all
    with av(1) show ?thesis by auto
  qed
qed

lemma rmatch_plus_complete:
  assumes body: "\<And>w s' caps. w \<in> lang r \<Longrightarrow> \<exists>c'. (s', c') \<in> set (rmatch r b (w @ s') caps)"
    and a: "a \<in> lang r" and v: "v \<in> star (lang r)"
  shows "\<exists>c'. (s', c') \<in> set (rmatch (Plus r) b ((a @ v) @ s') caps)"
proof (cases "a = []")
  case False
  from body [OF a, of "v @ s'" caps]
  obtain c1 where c1: "(v @ s', c1) \<in> set (rmatch r b (a @ v @ s') caps)" by blast
  from rmatch_star_complete [of r b v s' c1] body v
  obtain c' where c': "(s', c') \<in> set (rmatch (Star r) b (v @ s') c1)" by blast
  have len: "length (v @ s') < length (a @ v @ s')" using False by simp
  have "(s', c') \<in> set (rmatch (Plus r) b (a @ v @ s') caps)"
    unfolding rmatch_Plus_iff [of "(s', c')" r b "a @ v @ s'" caps]
    using c1 c' len by (intro bexI [of _ "(v @ s', c1)"]) simp_all
  then show ?thesis by auto
next
  case True
  show ?thesis
  proof (cases "v = []")
    case True
    from body [OF a, of s' caps]
    obtain c1 where c1: "(s', c1) \<in> set (rmatch r b (a @ s') caps)" by blast
    with \<open>a = []\<close> have c1': "(s', c1) \<in> set (rmatch r b s' caps)" by simp
    have "(s', c1) \<in> set (rmatch (Plus r) b s' caps)"
      unfolding rmatch_Plus_iff [of "(s', c1)" r b s' caps]
      using c1' by (intro bexI [of _ "(s', c1)"]) simp_all
    with True \<open>a = []\<close> show ?thesis by auto
  next
    case False
    from star_nonempty_decomp [OF v False]
    obtain a' v' where av': "v = a' @ v'" "a' \<in> lang r" "a' \<noteq> []" "v' \<in> star (lang r)" by blast
    from body [OF av'(2), of "v' @ s'" caps]
    obtain c2 where c2: "(v' @ s', c2) \<in> set (rmatch r b (a' @ v' @ s') caps)" by blast
    from rmatch_star_complete [of r b v' s' c2] body av'(4)
    obtain c' where c': "(s', c') \<in> set (rmatch (Star r) b (v' @ s') c2)" by blast
    have len: "length (v' @ s') < length (a' @ v' @ s')" using av' by simp
    have "(s', c') \<in> set (rmatch (Plus r) b (a' @ v' @ s') caps)"
      unfolding rmatch_Plus_iff [of "(s', c')" r b "a' @ v' @ s'" caps]
      using c2 c' len by (intro bexI [of _ "(v' @ s', c2)"]) simp_all
    with av'(1) \<open>a = []\<close> show ?thesis by auto
  qed
qed

lemma rmatch_complete:
  "w \<in> lang r \<Longrightarrow> \<exists>c'. (s', c') \<in> set (rmatch r b (w @ s') caps)"
proof (induction r arbitrary: w b s' caps)
  case (Seq r1 r2)
  then obtain u v where uv: "w = u @ v" "u \<in> lang r1" "v \<in> lang r2" by auto
  from Seq.IH(1) [OF uv(2), of "v @ s'" b caps]
  obtain c1 where c1: "(v @ s', c1) \<in> set (rmatch r1 b (u @ v @ s') caps)" by blast
  from Seq.IH(2) [OF uv(3), of s' "b + ngroups r1" c1]
  obtain c' where c': "(s', c') \<in> set (rmatch r2 (b + ngroups r1) (v @ s') c1)" by blast
  have "(s', c') \<in> set (rmatch (Seq r1 r2) b (u @ v @ s') caps)"
    using c1 c' by (simp add: in_concat_map del: set_concat) (intro bexI [of _ "(v @ s', c1)"], simp_all)
  with uv(1) show ?case by auto
next
  case (Alt r1 r2)
  from Alt.prems have "w \<in> lang r1 \<or> w \<in> lang r2" by simp
  then show ?case
  proof
    assume "w \<in> lang r1"
    from Alt.IH(1) [OF this, of s' b caps] show ?thesis by auto
  next
    assume "w \<in> lang r2"
    from Alt.IH(2) [OF this, of s' "b + ngroups r1" caps] show ?thesis by auto
  qed
next
  case (Star r)
  from Star.prems have "w \<in> star (lang r)" by simp
  from rmatch_star_complete [of r b w s' caps, OF Star.IH this] show ?case .
next
  case (Plus r)
  then obtain a v where av: "w = a @ v" "a \<in> lang r" "v \<in> star (lang r)" by auto
  from rmatch_plus_complete [of r b a v s' caps, OF Plus.IH av(2) av(3)] av(1)
  show ?case by simp
next
  case (Opt r)
  show ?case
  proof (cases "w = []")
    case True
    then show ?thesis by auto
  next
    case False
    with Opt.prems have "w \<in> lang r" by simp
    from Opt.IH [OF this, of s' b caps] show ?thesis by auto
  qed
next
  case (Group r)
  from Group.prems have "w \<in> lang r" by simp
  from Group.IH [OF this, of s' "Suc b" caps]
  obtain c1 where c1: "(s', c1) \<in> set (rmatch r (Suc b) (w @ s') caps)" by blast
  have "(s', c1[b := Some w]) \<in> set (rmatch (Group r) b (w @ s') caps)"
    using c1 by (simp add: image_iff) (intro bexI [of _ "(s', c1)"], simp_all)
  then show ?case by (rule exI)
next
  case (NamedGroup name r)
  from NamedGroup.prems have "w \<in> lang r" by simp
  from NamedGroup.IH [OF this, of s' "Suc b" caps]
  obtain c1 where c1: "(s', c1) \<in> set (rmatch r (Suc b) (w @ s') caps)" by blast
  have "(s', c1[b := Some w]) \<in> set (rmatch (NamedGroup name r) b (w @ s') caps)"
    using c1 by (simp add: image_iff) (intro bexI [of _ "(s', c1)"], simp_all)
  then show ?case by (rule exI)
qed auto

lemma rmatch_nonempty_iff:
  "rmatch r b s caps \<noteq> [] \<longleftrightarrow> (\<exists>u v. s = u @ v \<and> u \<in> lang r)"
proof
  assume "rmatch r b s caps \<noteq> []"
  then obtain p where "p \<in> set (rmatch r b s caps)" by (cases "rmatch r b s caps") auto
  from rmatch_sound [OF this] show "\<exists>u v. s = u @ v \<and> u \<in> lang r" by blast
next
  assume "\<exists>u v. s = u @ v \<and> u \<in> lang r"
  then obtain u v where uv: "s = u @ v" "u \<in> lang r" by blast
  from rmatch_complete [OF uv(2), of v b caps] uv(1) show "rmatch r b s caps \<noteq> []" by auto
qed

lemma pattern_fullmatch_iff: "pattern_fullmatch pattern s \<noteq> None \<longleftrightarrow> s \<in> lang pattern"
proof -
  let ?rs = "rmatch pattern 0 s (replicate (ngroups pattern) None)"
  have "pattern_fullmatch pattern s \<noteq> None \<longleftrightarrow> filter (\<lambda>p. fst p = []) ?rs \<noteq> []"
    by (simp add: pattern_fullmatch_def split: list.splits)
  also have "\<dots> \<longleftrightarrow> (\<exists>p \<in> set ?rs. fst p = [])"
    by (simp add: filter_empty_conv)
  also have "\<dots> \<longleftrightarrow> s \<in> lang pattern"
  proof
    assume "\<exists>p \<in> set ?rs. fst p = []"
    then obtain p where p: "p \<in> set ?rs" "fst p = []" by blast
    from rmatch_sound [OF p(1)] p(2) show "s \<in> lang pattern" by auto
  next
    assume "s \<in> lang pattern"
    from rmatch_complete [OF this, of "[]" 0 "replicate (ngroups pattern) None"]
    obtain c' where "([], c') \<in> set ?rs" by auto
    then show "\<exists>p \<in> set ?rs. fst p = []" by force
  qed
  finally show ?thesis .
qed

lemma search_from_iff:
  "search_from pattern pos s \<noteq> None \<longleftrightarrow> (\<exists>a b c. s = a @ b @ c \<and> b \<in> lang pattern)"
proof (induction s arbitrary: pos)
  case Nil
  have "search_from pattern pos [] \<noteq> None \<longleftrightarrow> rmatch pattern 0 [] (replicate (ngroups pattern) None) \<noteq> []"
    by (simp split: list.splits)
  then show ?case unfolding rmatch_nonempty_iff by auto
next
  case (Cons x xs)
  let ?rs = "rmatch pattern 0 (x # xs) (replicate (ngroups pattern) None)"
  show ?case
  proof (cases ?rs)
    case Nil
    then have none: "\<not> (\<exists>u v. x # xs = u @ v \<and> u \<in> lang pattern)"
      using rmatch_nonempty_iff [of pattern 0 "x # xs" "replicate (ngroups pattern) None"] by simp
    from Nil have "search_from pattern pos (x # xs) = search_from pattern (Suc pos) xs" by simp
    then have "search_from pattern pos (x # xs) \<noteq> None \<longleftrightarrow>
        (\<exists>a b c. xs = a @ b @ c \<and> b \<in> lang pattern)"
      using Cons.IH [of "Suc pos"] by simp
    also have "\<dots> \<longleftrightarrow> (\<exists>a b c. x # xs = a @ b @ c \<and> b \<in> lang pattern)"
    proof
      assume "\<exists>a b c. xs = a @ b @ c \<and> b \<in> lang pattern"
      then obtain a b c where "xs = a @ b @ c" "b \<in> lang pattern" by blast
      then have "x # xs = (x # a) @ b @ c \<and> b \<in> lang pattern" by simp
      then show "\<exists>a b c. x # xs = a @ b @ c \<and> b \<in> lang pattern" by blast
    next
      assume "\<exists>a b c. x # xs = a @ b @ c \<and> b \<in> lang pattern"
      then obtain a b c where abc: "x # xs = a @ b @ c" "b \<in> lang pattern" by blast
      show "\<exists>a b c. xs = a @ b @ c \<and> b \<in> lang pattern"
      proof (cases a)
        case Nil
        with abc none show ?thesis by auto
      next
        case (Cons y ys)
        with abc have "xs = ys @ b @ c \<and> b \<in> lang pattern" by simp
        then show ?thesis by blast
      qed
    qed
    finally show ?thesis .
  next
    case (Cons p ps)
    then have "search_from pattern pos (x # xs) \<noteq> None" by simp
    moreover from Cons have "?rs \<noteq> []" by simp
    then obtain u v where "x # xs = u @ v" "u \<in> lang pattern"
      unfolding rmatch_nonempty_iff by blast
    then have "x # xs = [] @ u @ v \<and> u \<in> lang pattern" by simp
    then have "\<exists>a b c. x # xs = a @ b @ c \<and> b \<in> lang pattern" by blast
    ultimately show ?thesis by simp
  qed
qed

text \<open>
  Claim C7. With \<^verbatim>\<open>full=True\<close>, \<^verbatim>\<open>match_regex_string\<close> returns a match exactly when the
  whole file name is a word of the pattern, so a pattern that matches only a proper part
  of the name gives no match; with \<^verbatim>\<open>full=False\<close> it returns a match exactly when some
  part of the name, anywhere in it, is a word of the pattern. In both modes it returns
  \<^verbatim>\<open>None\<close> otherwise, and a pattern that does not compile never gives a match: the
  library's error is raised.
\<close>

theorem match_regex_string_full_or_anywhere:
  "((\<exists>m. match_regex_string (Compiled pattern) filename True = Inr (Some m)) \<longleftrightarrow>
      filename \<in> lang pattern) \<and>
   (match_regex_string (Compiled pattern) filename True = Inr None \<longleftrightarrow>
      filename \<notin> lang pattern) \<and>
   ((\<exists>m. match_regex_string (Compiled pattern) filename False = Inr (Some m)) \<longleftrightarrow>
      (\<exists>a b c. filename = a @ b @ c \<and> b \<in> lang pattern)) \<and>
   (match_regex_string (Compiled pattern) filename False = Inr None \<longleftrightarrow>
      \<not> (\<exists>a b c. filename = a @ b @ c \<and> b \<in> lang pattern)) \<and>
   match_regex_string Uncompilable filename full = Inl ReError_pattern"
proof -
  have t: "match_regex_string (Compiled pattern) filename True = Inr (pattern_fullmatch pattern filename)"
    by (simp add: match_regex_string_def re_fullmatch_def)
  have f: "match_regex_string (Compiled pattern) filename False = Inr (search_from pattern 0 filename)"
    by (simp add: match_regex_string_def re_search_def pattern_search_def)
  have u: "match_regex_string Uncompilable filename full = Inl ReError_pattern"
    by (simp add: match_regex_string_def re_search_def re_fullmatch_def)
  have o: "(\<exists>m. x = Some m) \<longleftrightarrow> x \<noteq> None" for x :: "sre_match option" by auto
  show ?thesis
    unfolding t f u sum.inject o
    using pattern_fullmatch_iff [of pattern filename] search_from_iff [of pattern 0 filename]
    by blast
qed

theorem match_regex_string_full_or_anywhere_witness:
  "match_regex_string (Compiled pattern_a_digit) ''xa1.txt'' True = Inr None \<and>
   ''xa1.txt'' \<notin> lang pattern_a_digit \<and>
   (\<exists>m. match_regex_string (Compiled pattern_a_digit) ''xa1.txt'' False = Inr (Some m)) \<and>
   (\<exists>a b c. ''xa1.txt'' = a @ b @ c \<and> b \<in> lang pattern_a_digit) \<and>
   (\<exists>m. match_regex_string (Compiled pattern_a_digit) ''a1.txt'' True = Inr (Some m)) \<and>
   ''a1.txt'' \<in> lang pattern_a_digit"
proof -
  have a: "match_regex_string (Compiled pattern_a_digit) ''xa1.txt'' True = Inr None" by code_simp
  have b0: "match_regex_string (Compiled pattern_a_digit) ''xa1.txt'' False \<noteq> Inr None" by code_simp
  have c0: "match_regex_string (Compiled pattern_a_digit) ''a1.txt'' True \<noteq> Inr None" by code_simp
  note inst1 = match_regex_string_full_or_anywhere [of pattern_a_digit "''xa1.txt''"]
  note inst2 = match_regex_string_full_or_anywhere [of pattern_a_digit "''a1.txt''"]
  from a inst1 have n1: "''xa1.txt'' \<notin> lang pattern_a_digit" by blast
  from b0 inst1 have s1: "\<exists>a b c. ''xa1.txt'' = a @ b @ c \<and> b \<in> lang pattern_a_digit" by blast
  from s1 inst1 have b: "\<exists>m. match_regex_string (Compiled pattern_a_digit) ''xa1.txt'' False = Inr (Some m)"
    by blast
  from c0 inst2 have l2: "''a1.txt'' \<in> lang pattern_a_digit" by blast
  from l2 inst2 have c: "\<exists>m. match_regex_string (Compiled pattern_a_digit) ''a1.txt'' True = Inr (Some m)"
    by blast
  from a n1 b s1 c l2 show ?thesis by blast
qed

section \<open>Runs without a template, and duplicate targets\<close>


lemma match_filename_no_template:
  "\<not> truthy rp \<Longrightarrow> \<exists>m. match_filename f (Compiled r) rp full pad = Inr m"
  by (simp add: match_filename_def match_regex_string_def re_fullmatch_def re_search_def Let_def
      split: option.splits)

lemma match_filename_uncompilable:
  "match_filename f Uncompilable rp full pad = Inl ReError_pattern"
  by (simp add: match_filename_def match_regex_string_def re_fullmatch_def re_search_def)

lemma match_filename_falsy_eq:
  "\<not> truthy rp \<Longrightarrow> match_filename f p rp full pad = match_filename f p None full pad"
  by (simp add: match_filename_def Let_def truthy_def split: option.splits sum.splits)

lemma match_each_no_template:
  "\<not> truthy rp \<Longrightarrow> \<exists>ms. match_each fs (Compiled r) rp full pad = Inr ms"
proof (induction fs)
  case Nil
  then show ?case by simp
next
  case (Cons f fs)
  from match_filename_no_template [OF Cons.prems, of f r full pad]
  obtain m where "match_filename f (Compiled r) rp full pad = Inr m" by blast
  moreover from Cons.IH [OF Cons.prems]
  obtain ms where "match_each fs (Compiled r) rp full pad = Inr ms" by blast
  ultimately show ?case by simp
qed

lemma match_each_uncompilable:
  "fs \<noteq> [] \<Longrightarrow> match_each fs Uncompilable rp full pad = Inl ReError_pattern"
  by (cases fs) (simp_all add: match_filename_uncompilable)

lemma match_each_falsy_eq:
  "\<not> truthy rp \<Longrightarrow> match_each fs p rp full pad = match_each fs p None full pad"
  by (induction fs) (auto simp: match_filename_falsy_eq [of rp] split: sum.splits)

lemma match_files_no_template:
  "\<not> truthy rp \<Longrightarrow> \<exists>ms. match_files cwd (Compiled r) rp rec full pad = Inr ms"
  using match_each_no_template [of rp "sort (list_files cwd rec)" r full pad]
  by (auto simp: match_files_def Let_def)

lemma sort_eq_Nil_iff: "sort xs = [] \<longleftrightarrow> xs = []"
  using length_sort [of "\<lambda>x. x" xs] by (metis length_0_conv)

lemma match_files_uncompilable:
  "list_files cwd rec \<noteq> [] \<Longrightarrow> match_files cwd Uncompilable rp rec full pad = Inl ReError_pattern"
  by (simp add: match_files_def Let_def match_each_uncompilable sort_eq_Nil_iff)

lemma match_files_no_files:
  "list_files cwd rec = [] \<Longrightarrow> match_files cwd p rp rec full pad = Inr []"
  by (simp add: match_files_def Let_def List.map_filter_simps)

lemma match_files_falsy_eq:
  "\<not> truthy rp \<Longrightarrow> match_files cwd p rp rec full pad = match_files cwd p None rec full pad"
  by (simp add: match_files_def Let_def match_each_falsy_eq [of rp])

lemma bulk_rename_falsy:
  assumes "\<not> truthy rp"
  shows "bulk_rename cwd p rp testing full rec pad =
    (case match_files cwd p None rec full pad of
       Inl e \<Rightarrow> (Inl e, [])
     | Inr ms \<Rightarrow> if testing then (Inr ms, []) else (Inl RuntimeError_replacement_required, []))"
  using assms match_files_falsy_eq [OF assms, of cwd p rec full pad]
  by (simp add: bulk_rename_def split: sum.splits)

lemma bulk_rename_falsy_calls:
  assumes "\<not> truthy rp"
  shows "snd (bulk_rename cwd p rp testing full rec pad) = []"
  by (simp add: bulk_rename_falsy [OF assms] split: sum.splits)

text \<open>
  Claim C6, as amended. \<^verbatim>\<open>bulk_rename\<close> matches the files before it looks at the
  configuration. Called with \<^verbatim>\<open>testing=False\<close> and no replacement pattern, it makes no
  call to the file system, whatever the pattern. It raises the \<^verbatim>\<open>RuntimeError\<close>
  "replacement pattern is required for renaming" when the pattern compiles, and also
  when no file is listed; when the pattern does not compile and a file is listed, the
  matching raises the library's \<^verbatim>\<open>re.error\<close> first.
\<close>

theorem rename_without_template_fails:
  "bulk_rename cwd (Compiled r) None False full recursive padding =
     (Inl RuntimeError_replacement_required, []) \<and>
   (list_files cwd recursive = [] \<longrightarrow>
      bulk_rename cwd Uncompilable None False full recursive padding =
        (Inl RuntimeError_replacement_required, [])) \<and>
   (list_files cwd recursive \<noteq> [] \<longrightarrow>
      bulk_rename cwd Uncompilable None False full recursive padding = (Inl ReError_pattern, [])) \<and>
   snd (bulk_rename cwd pattern None False full recursive padding) = []"
proof -
  have falsy: "\<not> truthy None" by (simp add: truthy_def)
  from match_files_no_template [OF falsy, of cwd r recursive full padding]
  obtain ms where "match_files cwd (Compiled r) None recursive full padding = Inr ms" by blast
  then have a: "bulk_rename cwd (Compiled r) None False full recursive padding =
     (Inl RuntimeError_replacement_required, [])"
    by (simp add: bulk_rename_falsy [OF falsy])
  have b: "list_files cwd recursive = [] \<longrightarrow>
      bulk_rename cwd Uncompilable None False full recursive padding =
        (Inl RuntimeError_replacement_required, [])"
    by (simp add: bulk_rename_falsy [OF falsy] match_files_no_files)
  have c: "list_files cwd recursive \<noteq> [] \<longrightarrow>
      bulk_rename cwd Uncompilable None False full recursive padding = (Inl ReError_pattern, [])"
    by (simp add: bulk_rename_falsy [OF falsy] match_files_uncompilable)
  have d: "snd (bulk_rename cwd pattern None False full recursive padding) = []"
    by (rule bulk_rename_falsy_calls [OF falsy])
  from a b c d show ?thesis by blast
qed

theorem rename_without_template_fails_witness:
  "bulk_rename scenario_dir (Compiled pattern_a_digit) None False False False 0 =
     (Inl RuntimeError_replacement_required, []) \<and>
   list_files \<lparr>direct_files = [], all_files = []\<rparr> False = [] \<and>
   bulk_rename \<lparr>direct_files = [], all_files = []\<rparr> Uncompilable None False False False 0 =
     (Inl RuntimeError_replacement_required, []) \<and>
   list_files scenario_dir False \<noteq> [] \<and>
   bulk_rename scenario_dir Uncompilable None False False False 0 = (Inl ReError_pattern, [])"
proof -
  have e: "list_files \<lparr>direct_files = [], all_files = []\<rparr> False = []"
    by (simp add: list_files_def)
  have n: "list_files scenario_dir False \<noteq> []"
    by (simp add: list_files_def scenario_dir_def)
  from rename_without_template_fails [of scenario_dir pattern_a_digit False False 0] n
  have "bulk_rename scenario_dir (Compiled pattern_a_digit) None False False False 0 =
     (Inl RuntimeError_replacement_required, [])"
    and "bulk_rename scenario_dir Uncompilable None False False False 0 = (Inl ReError_pattern, [])"
    by blast+
  moreover
  from rename_without_template_fails [of "\<lparr>direct_files = [], all_files = []\<rparr>" pattern_a_digit False False 0] e
  have "bulk_rename \<lparr>direct_files = [], all_files = []\<rparr> Uncompilable None False False False 0 =
     (Inl RuntimeError_replacement_required, [])"
    by blast
  ultimately show ?thesis using e n by blast
qed

text \<open>
  The claim as stated, for every invocation, fails on a pattern that does not
  compile: in the directory of the scenario the run without a template and with
  \<^verbatim>\<open>testing=False\<close> raises \<^verbatim>\<open>re.error\<close>, not the missing-replacement error.
\<close>

theorem rename_without_template_counterexample:
  "bulk_rename scenario_dir Uncompilable None False False False 0 = (Inl ReError_pattern, []) \<and>
   bulk_rename scenario_dir Uncompilable None False False False 0 \<noteq>
     (Inl RuntimeError_replacement_required, [])"
  by code_simp

text \<open>
  Claim C10, as amended. The empty replacement pattern behaves as \<^verbatim>\<open>None\<close> does,
  whatever the pattern: \<^verbatim>\<open>match_filename\<close> returns the same match or raises the same
  error, and a match has no target name; \<^verbatim>\<open>bulk_rename\<close> behaves the same in either mode
  and makes no call to the file system. When the pattern compiles, the run in testing
  mode returns the matches and never the duplicate error (the check is skipped, although
  the absent target names would all collide), and the run with \<^verbatim>\<open>testing=False\<close> raises
  the missing-replacement error. When the pattern does not compile and a file is listed,
  either run raises the library's \<^verbatim>\<open>re.error\<close> instead.
\<close>

theorem empty_template_is_no_template:
  "match_filename filename pattern (Some []) full padding =
     match_filename filename pattern None full padding \<and>
   (\<forall>m. match_filename filename pattern (Some []) full padding = Inr (Some m) \<longrightarrow> name_to m = None) \<and>
   bulk_rename cwd pattern (Some []) testing full recursive padding =
     bulk_rename cwd pattern None testing full recursive padding \<and>
   snd (bulk_rename cwd pattern (Some []) testing full recursive padding) = [] \<and>
   (\<exists>matches. bulk_rename cwd (Compiled r) (Some []) True full recursive padding = (Inr matches, [])) \<and>
   bulk_rename cwd (Compiled r) (Some []) False full recursive padding =
     (Inl RuntimeError_replacement_required, []) \<and>
   (list_files cwd recursive \<noteq> [] \<longrightarrow>
      bulk_rename cwd Uncompilable (Some []) testing full recursive padding =
        (Inl ReError_pattern, []))"
proof -
  have falsy: "\<not> truthy (Some [])" "\<not> truthy None" by (simp_all add: truthy_def)
  have a: "match_filename filename pattern (Some []) full padding =
     match_filename filename pattern None full padding"
    by (rule match_filename_falsy_eq [OF falsy(1)])
  have b: "\<forall>m. match_filename filename pattern (Some []) full padding = Inr (Some m) \<longrightarrow> name_to m = None"
    by (auto simp: match_filename_def Let_def truthy_def split: option.splits sum.splits)
  have c: "bulk_rename cwd pattern (Some []) testing full recursive padding =
     bulk_rename cwd pattern None testing full recursive padding"
    by (simp only: bulk_rename_falsy [OF falsy(1)] bulk_rename_falsy [OF falsy(2)])
  have c': "snd (bulk_rename cwd pattern (Some []) testing full recursive padding) = []"
    by (rule bulk_rename_falsy_calls [OF falsy(1)])
  from match_files_no_template [OF falsy(2), of cwd r recursive full padding]
  obtain ms where ms: "match_files cwd (Compiled r) None recursive full padding = Inr ms" by blast
  then have d: "\<exists>matches. bulk_rename cwd (Compiled r) (Some []) True full recursive padding = (Inr matches, [])"
    by (simp add: bulk_rename_falsy [OF falsy(1)])
  from ms have e: "bulk_rename cwd (Compiled r) (Some []) False full recursive padding =
     (Inl RuntimeError_replacement_required, [])"
    by (simp add: bulk_rename_falsy [OF falsy(1)])
  have f: "list_files cwd recursive \<noteq> [] \<longrightarrow>
      bulk_rename cwd Uncompilable (Some []) testing full recursive padding =
        (Inl ReError_pattern, [])"
    by (simp add: bulk_rename_falsy [OF falsy(1)] match_files_uncompilable)
  from a b c c' d e f show ?thesis by blast
qed

theorem empty_template_is_no_template_witness:
  "\<exists>m1 m2.
     match_filename ''a1.txt'' (Compiled pattern_a_digit) (Some []) False 0 = Inr (Some m1) \<and>
     name_to m1 = None \<and> name_to m2 = None \<and>
     bulk_rename scenario_dir (Compiled pattern_a_digit) (Some []) True False False 0 = (Inr [m1, m2], []) \<and>
     find_duplicates [m1, m2] = Some (RuntimeError_duplicate_filenames {None}) \<and>
     bulk_rename scenario_dir (Compiled pattern_a_digit) (Some []) False False False 0 =
       (Inl RuntimeError_replacement_required, []) \<and>
     list_files scenario_dir False \<noteq> [] \<and>
     bulk_rename scenario_dir Uncompilable (Some []) True False False 0 = (Inl ReError_pattern, [])"
proof -
  define m1 where "m1 = the (projr (match_filename ''a1.txt'' (Compiled pattern_a_digit) (Some []) False 0))"
  define m2 where "m2 = the (projr (match_filename ''a2.txt'' (Compiled pattern_a_digit) (Some []) False 0))"
  have a: "match_filename ''a1.txt'' (Compiled pattern_a_digit) (Some []) False 0 = Inr (Some m1)"
    unfolding m1_def by code_simp
  have b: "bulk_rename scenario_dir (Compiled pattern_a_digit) (Some []) True False False 0 = (Inr [m1, m2], [])"
    unfolding m1_def m2_def by code_simp
  have c: "find_duplicates [m1, m2] = Some (RuntimeError_duplicate_filenames {None})"
    unfolding m1_def m2_def by code_simp
  have d: "name_to m2 = None" unfolding m2_def by code_simp
  have n: "list_files scenario_dir False \<noteq> []"
    by (simp add: list_files_def scenario_dir_def)
  from empty_template_is_no_template
    [of "''a1.txt''" "Compiled pattern_a_digit" False 0 scenario_dir True False pattern_a_digit] a n
  have "name_to m1 = None"
    and "bulk_rename scenario_dir (Compiled pattern_a_digit) (Some []) False False False 0 =
       (Inl RuntimeError_replacement_required, [])"
    and "bulk_rename scenario_dir Uncompilable (Some []) True False False 0 = (Inl ReError_pattern, [])"
    by blast+
  with a b c d n show ?thesis by blast
qed

text \<open>
  The claim as stated fails on a pattern that does not compile: with the
  empty template and \<^verbatim>\<open>testing=False\<close>, the run in the directory of the scenario raises
  \<^verbatim>\<open>re.error\<close>, not the missing-replacement error.
\<close>

theorem empty_template_counterexample:
  "bulk_rename scenario_dir Uncompilable (Some []) False False False 0 = (Inl ReError_pattern, []) \<and>
   bulk_rename scenario_dir Uncompilable (Some []) False False False 0 \<noteq>
     (Inl RuntimeError_replacement_required, [])"
  by code_simp

lemma count_list_pos_iff: "0 < count_list xs x \<longleftrightarrow> x \<in> set xs"
  by (induction xs) auto

lemma count_list_gt1_iff:
  "Suc 0 < count_list xs x \<longleftrightarrow> (\<exists>i j. i < j \<and> j < length xs \<and> xs ! i = x \<and> xs ! j = x)"
proof (induction xs)
  case Nil
  then show ?case by simp
next
  case (Cons y ys)
  show ?case
  proof
    assume gt: "Suc 0 < count_list (y # ys) x"
    show "\<exists>i j. i < j \<and> j < length (y # ys) \<and> (y # ys) ! i = x \<and> (y # ys) ! j = x"
    proof (cases "Suc 0 < count_list ys x")
      case True
      with Cons.IH obtain i j where "i < j" "j < length ys" "ys ! i = x" "ys ! j = x" by blast
      then have "Suc i < Suc j \<and> Suc j < length (y # ys) \<and> (y # ys) ! Suc i = x \<and> (y # ys) ! Suc j = x"
        by simp
      then show ?thesis by blast
    next
      case False
      with gt have yx: "y = x" and "0 < count_list ys x" by (auto split: if_splits)
      then have "x \<in> set ys" by (simp add: count_list_pos_iff)
      then obtain j where "j < length ys" "ys ! j = x" by (auto simp: in_set_conv_nth)
      with yx have "0 < Suc j \<and> Suc j < length (y # ys) \<and> (y # ys) ! 0 = x \<and> (y # ys) ! Suc j = x"
        by simp
      then show ?thesis by blast
    qed
  next
    assume "\<exists>i j. i < j \<and> j < length (y # ys) \<and> (y # ys) ! i = x \<and> (y # ys) ! j = x"
    then obtain i j where ij: "i < j" "j < length (y # ys)" "(y # ys) ! i = x" "(y # ys) ! j = x"
      by blast
    from ij(1) obtain j' where j': "j = Suc j'" by (cases j) auto
    show "Suc 0 < count_list (y # ys) x"
    proof (cases i)
      case 0
      with ij j' have "y = x" "x \<in> set ys" by (auto simp: in_set_conv_nth)
      then show ?thesis using count_list_pos_iff [of ys x] by simp
    next
      case (Suc i')
      with ij j' have "i' < j' \<and> j' < length ys \<and> ys ! i' = x \<and> ys ! j' = x" by simp
      then have "Suc 0 < count_list ys x" using Cons.IH by blast
      then show ?thesis by simp
    qed
  qed
qed

lemma duplicates_set:
  "set (filter (\<lambda>name. count_list names name > 1) names) =
     {n. \<exists>i j. i < j \<and> j < length names \<and> names ! i = n \<and> names ! j = n}"
proof -
  have "\<And>n. Suc 0 < count_list names n \<Longrightarrow> n \<in> set names"
    using count_list_pos_iff [of names] by (metis Suc_lessD)
  then show ?thesis by (auto simp: count_list_gt1_iff)
qed

text \<open>
  Claim C1. When the matches of a run with a (non-empty) template hold two entries, at
  different positions, with the same target name, \<^verbatim>\<open>bulk_rename\<close> raises the duplicate
  error in either mode; the error carries exactly the target names that occur at two
  positions, and no call to the file system has been made.
\<close>
theorem duplicate_targets_abort_batch:
  assumes "match_files cwd pattern (Some template) recursive full padding = Inr matches"
    and "template \<noteq> []"
    and "i < j" and "j < length matches"
    and "name_to (matches ! i) = name_to (matches ! j)"
  shows "bulk_rename cwd pattern (Some template) testing full recursive padding =
    (Inl (RuntimeError_duplicate_filenames
            {n. \<exists>i j. i < j \<and> j < length matches \<and>
                       name_to (matches ! i) = n \<and> name_to (matches ! j) = n}), [])"
proof -
  define names where "names = map name_to matches"
  define D where "D = {n. \<exists>i j. i < j \<and> j < length matches \<and>
    name_to (matches ! i) = n \<and> name_to (matches ! j) = n}"
  have "(\<exists>i j. i < j \<and> j < length names \<and> names ! i = n \<and> names ! j = n) \<longleftrightarrow>
        (\<exists>i j. i < j \<and> j < length matches \<and> name_to (matches ! i) = n \<and> name_to (matches ! j) = n)"
    for n
  proof
    assume "\<exists>i j. i < j \<and> j < length names \<and> names ! i = n \<and> names ! j = n"
    then obtain i j where "i < j" "j < length names" "names ! i = n" "names ! j = n" by blast
    then have "i < j \<and> j < length matches \<and> name_to (matches ! i) = n \<and> name_to (matches ! j) = n"
      by (simp add: names_def)
    then show "\<exists>i j. i < j \<and> j < length matches \<and> name_to (matches ! i) = n \<and> name_to (matches ! j) = n"
      by blast
  next
    assume "\<exists>i j. i < j \<and> j < length matches \<and> name_to (matches ! i) = n \<and> name_to (matches ! j) = n"
    then obtain i j where "i < j" "j < length matches" "name_to (matches ! i) = n" "name_to (matches ! j) = n"
      by blast
    then have "i < j \<and> j < length names \<and> names ! i = n \<and> names ! j = n"
      by (simp add: names_def)
    then show "\<exists>i j. i < j \<and> j < length names \<and> names ! i = n \<and> names ! j = n" by blast
  qed
  then have D: "set (filter (\<lambda>name. count_list names name > 1) names) = D"
    unfolding duplicates_set [of names] D_def by (rule Collect_cong)
  have "i < j \<and> j < length matches \<and> name_to (matches ! i) = name_to (matches ! i) \<and>
      name_to (matches ! j) = name_to (matches ! i)"
    using assms(3-5) by simp
  then have "name_to (matches ! i) \<in> D" unfolding D_def by blast
  then have ne: "D \<noteq> {}" by blast
  have "find_duplicates matches =
      (if set (filter (\<lambda>name. count_list names name > 1) names) \<noteq> {}
       then Some (RuntimeError_duplicate_filenames (set (filter (\<lambda>name. count_list names name > 1) names)))
       else None)"
    unfolding find_duplicates_def names_def Let_def ..
  with D ne have fd: "find_duplicates matches = Some (RuntimeError_duplicate_filenames D)"
    by simp
  have "truthy (Some template)" using assms(2) by (simp add: truthy_def)
  with assms(1) fd show ?thesis
    unfolding D_def [symmetric] by (simp add: bulk_rename_def)
qed

theorem duplicate_targets_abort_batch_witness:
  "\<exists>matches.
     match_files scenario_dir (Compiled pattern_a_digit) (Some ''x.dat'') False False 0 = Inr matches \<and>
     length matches = 2 \<and>
     name_to (matches ! 0) = Some ''x.dat'' \<and> name_to (matches ! 1) = Some ''x.dat'' \<and>
     bulk_rename scenario_dir (Compiled pattern_a_digit) (Some ''x.dat'') False False False 0 =
       (Inl (RuntimeError_duplicate_filenames
               {n. \<exists>i j. i < j \<and> j < length matches \<and>
                          name_to (matches ! i) = n \<and> name_to (matches ! j) = n}), [])"
proof -
  define ms where "ms = projr (match_files scenario_dir (Compiled pattern_a_digit) (Some ''x.dat'') False False 0)"
  have mf: "match_files scenario_dir (Compiled pattern_a_digit) (Some ''x.dat'') False False 0 = Inr ms"
    unfolding ms_def by code_simp
  have len: "length ms = 2" unfolding ms_def by code_simp
  have n0: "name_to (ms ! 0) = Some ''x.dat''" unfolding ms_def by code_simp
  have n1: "name_to (ms ! 1) = Some ''x.dat''" unfolding ms_def by code_simp
  have "bulk_rename scenario_dir (Compiled pattern_a_digit) (Some ''x.dat'') False False False 0 =
       (Inl (RuntimeError_duplicate_filenames
               {n. \<exists>i j. i < j \<and> j < length ms \<and>
                          name_to (ms ! i) = n \<and> name_to (ms ! j) = n}), [])"
    by (rule duplicate_targets_abort_batch [OF mf, of 0 1 False]) (use len n0 n1 in simp_all)
  with mf len n0 n1 show ?thesis by blast
qed

section \<open>Case directives, reproducible expansion and padding\<close>


text \<open>
  Claim C5. The template \<^verbatim>\<open>\L\1-\U\2\<close> with the groups \<^verbatim>\<open>{1: "Abc", 2: "abc"}\<close> expands to
  \<^verbatim>\<open>abc-ABC\<close>. The round for group 1 replaces \<^verbatim>\<open>\L\1\<close> by the lower-cased value and
  leaves \<^verbatim>\<open>abc-\U\2\<close>; the round for group 2 replaces \<^verbatim>\<open>\U\2\<close> by the upper-cased value.
  Within a round the directive forms are replaced before the plain reference: replacing
  the plain \<^verbatim>\<open>\1\<close> first would leave \<^verbatim>\<open>\LAbc-\U\2\<close>, the reference inside the directive
  used up.
\<close>

theorem case_directives_example:
  "expand_replacement
     (backslash # CHR ''L'' # backslash # ''1-'' @ backslash # CHR ''U'' # backslash # ''2'')
     [(1, Some ''Abc''), (2, Some ''abc'')] = ''abc-ABC'' \<and>
   expand_group
     (backslash # CHR ''L'' # backslash # ''1-'' @ backslash # CHR ''U'' # backslash # ''2'')
     1 (Some ''Abc'') = ''abc-'' @ backslash # CHR ''U'' # backslash # ''2'' \<and>
   expand_group (''abc-'' @ backslash # CHR ''U'' # backslash # ''2'') 2 (Some ''abc'') = ''abc-ABC'' \<and>
   py_replace (backslash # ''1'') ''Abc''
     (backslash # CHR ''L'' # backslash # ''1-'' @ backslash # CHR ''U'' # backslash # ''2'') =
     backslash # ''LAbc-'' @ backslash # CHR ''U'' # backslash # ''2''"
  by code_simp

lemma match_filename_Some:
  assumes "match_filename filename pattern rp full padding = Inr (Some m)"
  shows "match_regex_string pattern filename full = Inr (Some (re_match m))"
    and "groups m = (if padding \<noteq> 0
                     then map (\<lambda>(index, grp). (index, pad_group padding grp)) (enumerate 1 (m_groups (re_match m)))
                     else enumerate 1 (m_groups (re_match m)))"
    and "name_from m = filename"
    and "name_to m = (if truthy rp then Some (expand_replacement (the rp) (groups m)) else None)"
  using assms
  by (auto simp: match_filename_def Let_def split: option.splits if_splits sum.splits)

text \<open>
  Claim C8. Expansion is a function of the template and the group dictionary: two runs
  on the same inputs cannot differ. In particular the target name stored in a match that
  \<^verbatim>\<open>match_filename\<close> built is reproduced by expanding the template against the groups
  stored in the same match.
\<close>

theorem expansion_reproducible:
  "(expand_replacement template group_dict = r1 \<and> expand_replacement template group_dict = r2
      \<longrightarrow> r1 = r2) \<and>
   (match_filename filename pattern (Some template) full padding = Inr (Some m) \<and>
    name_to m = Some target
      \<longrightarrow> expand_replacement template (groups m) = target)"
proof (intro conjI impI)
  assume "expand_replacement template group_dict = r1 \<and> expand_replacement template group_dict = r2"
  then show "r1 = r2" by (elim conjE) (rule trans [OF sym])
next
  assume a: "match_filename filename pattern (Some template) full padding = Inr (Some m) \<and>
    name_to m = Some target"
  from match_filename_Some(4) [of filename pattern "Some template" full padding m] a
  show "expand_replacement template (groups m) = target"
    by (auto split: if_splits)
qed

theorem expansion_reproducible_witness:
  "\<exists>m. match_filename ''a1.txt'' (Compiled pattern_a_digit) (Some (''x'' @ backslash # ''1.dat'')) False 0 = Inr (Some m) \<and>
       name_to m = Some ''x1.dat'' \<and>
       expand_replacement (''x'' @ backslash # ''1.dat'') (groups m) = ''x1.dat''"
proof -
  define m where "m = the (projr (match_filename ''a1.txt'' (Compiled pattern_a_digit) (Some (''x'' @ backslash # ''1.dat'')) False 0))"
  have a: "match_filename ''a1.txt'' (Compiled pattern_a_digit) (Some (''x'' @ backslash # ''1.dat'')) False 0 = Inr (Some m)"
    unfolding m_def by code_simp
  have b: "name_to m = Some ''x1.dat''" unfolding m_def by code_simp
  from expansion_reproducible [of "''x'' @ backslash # ''1.dat''" "[]" "[]" "[]" "''a1.txt''" "Compiled pattern_a_digit" False 0 m "''x1.dat''"] a b
  have "expand_replacement (''x'' @ backslash # ''1.dat'') (groups m) = ''x1.dat''" by blast
  with a b show ?thesis by blast
qed

lemma numeric_not_sign: "numeric_char c \<Longrightarrow> c \<noteq> CHR ''+'' \<and> c \<noteq> CHR ''-''"
  by (auto simp: numeric_char_def)

lemma py_zfill_numeric:
  assumes "g \<noteq> []" "list_all numeric_char g" "int (length g) < padding"
  shows "py_zfill g padding = replicate (nat (padding - int (length g))) (CHR ''0'') @ g"
proof -
  from assms(1) obtain c cs where g: "g = c # cs" by (cases g) auto
  with assms(2) have "numeric_char c" by simp
  from numeric_not_sign [OF this] assms(3) g show ?thesis
    by (simp add: py_zfill_def Let_def)
qed

lemma pad_group_cases:
  "pad_group padding None = None"
  "g \<noteq> [] \<Longrightarrow> list_all numeric_char g \<Longrightarrow> int (length g) < padding \<Longrightarrow>
     pad_group padding (Some g) = Some (replicate (nat (padding - int (length g))) (CHR ''0'') @ g)"
  "g = [] \<or> padding \<le> int (length g) \<or> \<not> list_all numeric_char g \<Longrightarrow>
     pad_group padding (Some g) = Some g"
  by (auto simp: pad_group_def py_isnumeric_def py_zfill_numeric) (simp add: py_zfill_def)

text \<open>
  Claim C3, as amended. Let \<^verbatim>\<open>match_filename\<close> return a match under a padding above 0.
  Its groups are the groups of the underlying match, numbered from 1, where: a group whose
  text is non-empty, numeric throughout in the sense of \<^verbatim>\<open>str.isnumeric\<close> and shorter than
  the padding has zeros put in front up to exactly the padding's length; a group that took
  no part, or whose text is empty, or at least as long as the padding, or holds a
  character that is not numeric, is unchanged. The target name, when a template is given,
  is the expansion against these padded groups.
\<close>

theorem numeric_groups_are_padded:
  assumes "0 < padding"
    and "match_filename filename pattern replacement_pattern full padding = Inr (Some m)"
    and "k < length (m_groups (re_match m))"
  shows "match_regex_string pattern filename full = Inr (Some (re_match m)) \<and>
         length (groups m) = length (m_groups (re_match m)) \<and>
         fst (groups m ! k) = Suc k \<and>
         (\<forall>g. m_groups (re_match m) ! k = Some g \<and> g \<noteq> [] \<and> list_all numeric_char g \<and>
               int (length g) < padding \<longrightarrow>
               snd (groups m ! k) = Some (replicate (nat (padding - int (length g))) (CHR ''0'') @ g) \<and>
               int (length (replicate (nat (padding - int (length g))) (CHR ''0'') @ g)) = padding) \<and>
         (m_groups (re_match m) ! k = None \<or>
          (\<exists>g. m_groups (re_match m) ! k = Some g \<and>
                (g = [] \<or> padding \<le> int (length g) \<or> \<not> list_all numeric_char g)) \<longrightarrow>
            snd (groups m ! k) = m_groups (re_match m) ! k) \<and>
         (truthy replacement_pattern \<longrightarrow>
            name_to m = Some (expand_replacement (the replacement_pattern) (groups m)))"
proof -
  note ms = match_filename_Some [OF assms(2)]
  let ?raw = "m_groups (re_match m)"
  from ms(2) assms(1) have gs: "groups m = map (\<lambda>(index, grp). (index, pad_group padding grp)) (enumerate 1 ?raw)"
    by simp
  then have len: "length (groups m) = length ?raw" by simp
  from gs assms(3) have k: "groups m ! k = (Suc k, pad_group padding (?raw ! k))"
    by (simp add: nth_enumerate_eq)
  have p1: "\<forall>g. ?raw ! k = Some g \<and> g \<noteq> [] \<and> list_all numeric_char g \<and> int (length g) < padding \<longrightarrow>
               snd (groups m ! k) = Some (replicate (nat (padding - int (length g))) (CHR ''0'') @ g) \<and>
               int (length (replicate (nat (padding - int (length g))) (CHR ''0'') @ g)) = padding"
    using k by (auto simp: pad_group_cases(2))
  have p2: "?raw ! k = None \<or>
          (\<exists>g. ?raw ! k = Some g \<and> (g = [] \<or> padding \<le> int (length g) \<or> \<not> list_all numeric_char g)) \<longrightarrow>
            snd (groups m ! k) = ?raw ! k"
    using k pad_group_cases(1) [of padding] pad_group_cases(3) [of _ padding] by auto
  have p3: "truthy replacement_pattern \<longrightarrow>
            name_to m = Some (expand_replacement (the replacement_pattern) (groups m))"
    using ms(4) by simp
  from ms(1) len k p1 p2 p3 show ?thesis by simp
qed

theorem numeric_groups_are_padded_witness:
  "\<exists>m. match_filename ''item7.txt'' (Compiled pattern_item) (Some (''n'' @ backslash # ''1'')) False 3 = Inr (Some m) \<and>
       m_groups (re_match m) = [Some ''7''] \<and>
       groups m = [(1, Some ''007'')] \<and>
       snd (groups m ! 0) = Some (replicate (nat (3 - int (length ''7''))) (CHR ''0'') @ ''7'') \<and>
       name_to m = Some ''n007''"
proof -
  define m where "m = the (projr (match_filename ''item7.txt'' (Compiled pattern_item) (Some (''n'' @ backslash # ''1'')) False 3))"
  have a: "match_filename ''item7.txt'' (Compiled pattern_item) (Some (''n'' @ backslash # ''1'')) False 3 = Inr (Some m)"
    unfolding m_def by code_simp
  have b: "m_groups (re_match m) = [Some ''7'']" unfolding m_def by code_simp
  have c: "groups m = [(1, Some ''007'')]" unfolding m_def by code_simp
  have d: "name_to m = Some ''n007''" unfolding m_def by code_simp
  have e: "list_all numeric_char ''7''" by code_simp
  from numeric_groups_are_padded [of 3 "''item7.txt''" "Compiled pattern_item" "Some (''n'' @ backslash # ''1'')" False m 0] a b e
  have "snd (groups m ! 0) = Some (replicate (nat (3 - int (length ''7''))) (CHR ''0'') @ ''7'')"
    by simp
  with a b c d show ?thesis by blast
qed

text \<open>
  The claim as stated fails at two points. The superscript two U+00B2 is not a decimal
  digit, yet \<^verbatim>\<open>str.isnumeric\<close> accepts it and the group is padded; and the empty text
  consists of decimal digits only and is shorter than the padding, yet it is not numeric
  and stays empty.
\<close>

theorem padding_counterexample:
  "(case match_filename [CHR ''a'', CHR 0xB2] (Compiled (Seq (Chr (CHR ''a'')) (Group AnyChar))) None True 3 of
      Inr (Some m) \<Rightarrow> (m_groups (re_match m), groups m) | _ \<Rightarrow> ([], [])) =
     ([Some [CHR 0xB2]], [(1, Some [CHR ''0'', CHR ''0'', CHR 0xB2])]) \<and>
   \<not> decimal_digit (CHR 0xB2) \<and>
   (case match_filename ''a'' (Compiled (Seq (Chr (CHR ''a'')) (Group (Star digit_class)))) None True 3 of
      Inr (Some m) \<Rightarrow> (m_groups (re_match m), groups m) | _ \<Rightarrow> ([], [])) =
     ([Some []], [(1, Some [])]) \<and>
   list_all decimal_digit [] \<and> int (length ([] :: string)) < 3"
  by code_simp

section \<open>Replacement on strings, and the reference to group 10\<close>


lemma replace_scan_absent:
  "b \<notin> set s \<Longrightarrow> replace_scan (b # rest) new s = s"
  by (induction s) auto

lemma replace_scan_skip:
  "b \<notin> set pre \<Longrightarrow> replace_scan (b # rest) new (pre @ s) = pre @ replace_scan (b # rest) new s"
  by (induction pre) auto

lemma sublist_absent: "b \<notin> set s \<Longrightarrow> \<not> sublist (b # rest) s"
  by (induction s) (auto simp: sublist_code(3))

lemma sublist_skip:
  "b \<notin> set pre \<Longrightarrow> sublist (b # rest) (pre @ s) \<longleftrightarrow> sublist (b # rest) s"
  by (induction pre) (auto simp: sublist_code(3))

lemma py_replace_absent: "b \<notin> set s \<Longrightarrow> py_replace (b # rest) new s = s"
  by (simp add: py_replace_def replace_scan_absent)

lemma expand_group_no_backslash:
  "backslash \<notin> set s \<Longrightarrow> expand_group s index grp = s"
  by (simp add: expand_group_def Let_def sublist_absent py_replace_absent)

lemma expand_loop_no_backslash:
  "backslash \<notin> set s \<Longrightarrow> expand_loop s items = s"
  by (induction items) (auto simp: expand_group_no_backslash)

lemma str_of_nat_digit: "n < 10 \<Longrightarrow> str_of_nat n = [digit_char n]"
  by (simp add: str_of_nat.simps)

lemma enumerate_Cons_nth: "gs \<noteq> [] \<Longrightarrow> enumerate k gs = (k, gs ! 0) # enumerate (Suc k) (tl gs)"
  by (cases gs) simp_all

lemma expand_group_10:
  assumes "backslash \<notin> set pre" "backslash \<notin> set post"
  shows "expand_group (pre @ backslash # ''10'' @ post) 1 grp = pre @ group_text grp @ ''0'' @ post"
proof -
  let ?s = "pre @ backslash # ''10'' @ post"
  have nb: "backslash \<notin> set (''10'' @ post)" using assms(2) by simp
  have noL: "\<not> sublist [backslash, CHR ''L''] ?s"
    using assms(1) nb by (simp add: sublist_skip sublist_code(3) sublist_absent)
  have noU: "\<not> sublist [backslash, CHR ''U''] ?s"
    using assms(1) nb by (simp add: sublist_skip sublist_code(3) sublist_absent)
  have "py_replace [backslash, CHR ''1''] (group_text grp) ?s =
      pre @ replace_scan [backslash, CHR ''1''] (group_text grp) (backslash # ''10'' @ post)"
    using assms(1) by (simp add: py_replace_def replace_scan_skip)
  also have "replace_scan [backslash, CHR ''1''] (group_text grp) (backslash # ''10'' @ post) =
      group_text grp @ replace_scan [backslash, CHR ''1''] (group_text grp) (''0'' @ post)"
    by simp
  also have "replace_scan [backslash, CHR ''1''] (group_text grp) (''0'' @ post) = ''0'' @ post"
    using assms(2) by (intro replace_scan_absent) simp
  finally have "py_replace [backslash, CHR ''1''] (group_text grp) ?s =
      pre @ group_text grp @ ''0'' @ post" .
  with noL noU show ?thesis
    by (simp add: expand_group_def Let_def str_of_nat_digit digit_char_def)
qed

lemma parse_template_plain_Cons:
  assumes "c \<noteq> backslash"
  shows "parse_template n gindex (c # w) =
    (case parse_template n gindex w of Inl e \<Rightarrow> Inl e | Inr items \<Rightarrow> Inr (Literal [c] # items))"
  using assms
  by (simp add: parse_template_def parse_loop.simps [of n gindex "(Some [c], w)"] tok_get_def
      parse_item_def split: sum.splits)

lemma parse_template_plain_prefix:
  assumes "backslash \<notin> set pre"
  shows "parse_template n gindex (pre @ w) =
    (case parse_template n gindex w of
       Inl e \<Rightarrow> Inl e
     | Inr items \<Rightarrow> Inr (map (\<lambda>c. Literal [c]) pre @ items))"
  using assms
proof (induction pre)
  case Nil
  then show ?case by (simp split: sum.splits)
next
  case (Cons c pre)
  then have c: "c \<noteq> backslash" and pre: "backslash \<notin> set pre" by auto
  show ?case
    unfolding append_Cons parse_template_plain_Cons [OF c] Cons.IH [OF pre]
    by (simp split: sum.splits)
qed

lemma parse_template_plain:
  assumes "backslash \<notin> set w"
  shows "parse_template n gindex w = Inr (map (\<lambda>c. Literal [c]) w)"
proof -
  have "parse_template n gindex [] = Inr []"
    by (simp add: parse_template_def parse_loop.simps [of n gindex "(None, [])"] tok_get_def)
  with parse_template_plain_prefix [OF assms, of n gindex "[]"] show ?thesis by simp
qed

lemma parse_template_ref_10:
  assumes "10 \<le> n" and "w = [] \<or> hd w \<notin> set OCTDIGITS"
  shows "parse_template n gindex (backslash # ''10'' @ w) =
    (case parse_template n gindex w of Inl e \<Rightarrow> Inl e | Inr items \<Rightarrow> Inr (GroupRef 10 # items))"
proof (cases "tok_next w")
  case (Inl e)
  then show ?thesis
    by (simp add: parse_template_def parse_loop.simps [of n gindex "(Some [backslash, CHR ''1''], CHR ''0'' # w)"]
        tok_get_def parse_item_def parse_digit_def next_in_def DIGITS_def)
next
  case (Inr tw)
  have noct: "\<not> next_in tw OCTDIGITS"
  proof (cases w)
    case Nil
    with Inr show ?thesis by (auto simp: next_in_def)
  next
    case (Cons c cs)
    with assms(2) have "c \<notin> set OCTDIGITS" by simp
    with Inr Cons show ?thesis
      by (auto simp: next_in_def OCTDIGITS_def split: if_splits list.splits)
  qed
  from Inr noct assms(1) show ?thesis
    by (simp add: parse_template_def parse_loop.simps [of n gindex "(Some [backslash, CHR ''1''], CHR ''0'' # w)"]
        tok_get_def parse_item_def parse_digit_def next_in_def DIGITS_def OCTDIGITS_def addgroup_def
        int_of_digits_def digit_val_def)
qed

lemma parse_template_octal_10:
  assumes "d \<in> set OCTDIGITS"
  shows "parse_template n gindex (backslash # ''10'' @ d # w) =
    (case parse_template n gindex w of
       Inl e \<Rightarrow> Inl e
     | Inr items \<Rightarrow> Inr (Literal [char_of (64 + digit_val d)] # items))"
proof -
  from assms have d: "d \<noteq> backslash" by (auto simp: OCTDIGITS_def)
  have v: "int_of_digits 8 [CHR ''1'', CHR ''0'', d] = 64 + digit_val d"
    by (simp add: int_of_digits_def digit_val_def)
  from assms have "digit_val d \<le> 7" by (auto simp: OCTDIGITS_def digit_val_def)
  then have le: "\<not> 255 < 64 + digit_val d" by simp
  have item: "parse_item n gindex [backslash, CHR ''1''] (Some ''0'', d # w) =
    (case tok_next w of
       Inl e \<Rightarrow> Inl e
     | Inr tw \<Rightarrow> Inr (Literal [char_of (64 + digit_val d)], tw))"
    using assms d le
    by (simp add: parse_item_def parse_digit_def parse_octal3_def tok_get_def next_in_def
        DIGITS_def OCTDIGITS_def v Let_def split: sum.splits)
  show ?thesis
    by (simp add: parse_template_def
        parse_loop.simps [of n gindex "(Some [backslash, CHR ''1''], CHR ''0'' # d # w)"]
        tok_get_def item split: sum.splits)
qed

lemma py_replace_marker_absent_10:
  assumes "backslash \<notin> set pre" and "backslash \<notin> set post" and "x \<noteq> CHR ''1''"
  shows "py_replace [backslash, x] new (pre @ backslash # CHR ''1'' # CHR ''0'' # post) =
    pre @ backslash # CHR ''1'' # CHR ''0'' # post"
proof -
  have "backslash \<notin> set (CHR ''1'' # CHR ''0'' # post)" using assms(2) by simp
  then have "replace_scan [backslash, x] new (CHR ''1'' # CHR ''0'' # post) = CHR ''1'' # CHR ''0'' # post"
    by (rule replace_scan_absent)
  then have "replace_scan [backslash, x] new (backslash # CHR ''1'' # CHR ''0'' # post) =
      backslash # CHR ''1'' # CHR ''0'' # post"
    using assms(3) by simp
  then show ?thesis
    using assms(1) by (simp add: py_replace_def replace_scan_skip)
qed

lemma simplified_template_10:
  assumes "backslash \<notin> set pre" and "backslash \<notin> set post"
  shows "simplified_template (pre @ backslash # ''10'' @ post) = pre @ backslash # ''10'' @ post"
  by (simp add: simplified_template_def py_replace_marker_absent_10 [OF assms])

text \<open>
  Claim C9, as amended. Take at least ten groups and a template in which \<^verbatim>\<open>\10\<close> stands
  between two texts without a backslash. If the text of group 1 holds no backslash,
  \<^verbatim>\<open>expand_replacement\<close> puts in the place of \<^verbatim>\<open>\10\<close> the text of group 1 followed by the
  character 0, whatever group 10 captured. Validation accepts every such template,
  whatever the groups captured. If the text after \<^verbatim>\<open>\10\<close> does not begin with an octal
  digit, the library's parser reads the \<^verbatim>\<open>\10\<close> of this template as the reference to
  group 10, the only reference in it. If it begins with an octal digit \<open>d\<close>, the parser
  reads \<^verbatim>\<open>\10\<close> and \<open>d\<close> as the octal escape of the character with code \<open>64 + d\<close>, and
  the parsed template holds no reference.
\<close>

theorem reference_10_expands_group_1:
  assumes "10 \<le> length gs"
    and "backslash \<notin> set pre" and "backslash \<notin> set post"
  shows "(backslash \<notin> set (group_text (gs ! 0)) \<longrightarrow>
            expand_replacement (pre @ backslash # ''10'' @ post) (enumerate 1 gs) =
              pre @ group_text (gs ! 0) @ ''0'' @ post) \<and>
         (\<forall>rm. m_groups rm = gs \<longrightarrow>
            validate_replacement rm (pre @ backslash # ''10'' @ post) = Inr ()) \<and>
         (post = [] \<or> hd post \<notin> set OCTDIGITS \<longrightarrow>
            parse_template (length gs) gindex (simplified_template (pre @ backslash # ''10'' @ post)) =
              Inr (map (\<lambda>c. Literal [c]) pre @ GroupRef 10 # map (\<lambda>c. Literal [c]) post)) \<and>
         (\<forall>d post'. post = d # post' \<and> d \<in> set OCTDIGITS \<longrightarrow>
            parse_template (length gs) gindex (simplified_template (pre @ backslash # ''10'' @ post)) =
              Inr (map (\<lambda>c. Literal [c]) pre @ Literal [char_of (64 + digit_val d)] #
                   map (\<lambda>c. Literal [c]) post'))"
proof -
  from assms(1) have "gs \<noteq> []" by auto
  then have e: "enumerate 1 gs = (1, gs ! 0) # enumerate 2 (tl gs)"
    using enumerate_Cons_nth [of gs 1] by (simp add: numeral_2_eq_2)
  have a: "expand_replacement (pre @ backslash # ''10'' @ post) (enumerate 1 gs) =
           pre @ group_text (gs ! 0) @ ''0'' @ post"
    if g1: "backslash \<notin> set (group_text (gs ! 0))"
  proof -
    have "backslash \<notin> set (pre @ group_text (gs ! 0) @ ''0'' @ post)"
      using assms(2,3) g1 by simp
    then have "expand_loop (pre @ group_text (gs ! 0) @ ''0'' @ post) (enumerate 2 (tl gs)) =
        pre @ group_text (gs ! 0) @ ''0'' @ post"
      by (rule expand_loop_no_backslash)
    then show ?thesis
      unfolding expand_replacement_def e expand_loop.simps expand_group_10 [OF assms(2,3)] .
  qed
  have b: "parse_template (length gs) gi (simplified_template (pre @ backslash # ''10'' @ post)) =
              Inr (map (\<lambda>c. Literal [c]) pre @ GroupRef 10 # map (\<lambda>c. Literal [c]) post)"
    if oct: "post = [] \<or> hd post \<notin> set OCTDIGITS" for gi
    unfolding simplified_template_10 [OF assms(2,3)]
      parse_template_plain_prefix [OF assms(2)]
      parse_template_ref_10 [OF assms(1) oct]
      parse_template_plain [OF assms(3)]
    by simp
  have c: "parse_template (length gs) gi (simplified_template (pre @ backslash # ''10'' @ post)) =
              Inr (map (\<lambda>c. Literal [c]) pre @ Literal [char_of (64 + digit_val d)] #
                   map (\<lambda>c. Literal [c]) post')"
    if post: "post = d # post'" and d: "d \<in> set OCTDIGITS" for d post' gi
  proof -
    from assms(3) post have p': "backslash \<notin> set post'" by simp
    show ?thesis
      unfolding simplified_template_10 [OF assms(2,3)]
        parse_template_plain_prefix [OF assms(2)]
      unfolding post parse_template_octal_10 [OF d] parse_template_plain [OF p']
      by simp
  qed
  have v: "validate_replacement rm (pre @ backslash # ''10'' @ post) = Inr ()"
    if rm: "m_groups rm = gs" for rm
  proof (cases "post = [] \<or> hd post \<notin> set OCTDIGITS")
    case True
    from b [OF True, of "m_groupindex rm"] rm show ?thesis
      by (simp add: validate_replacement_def match_expand_def)
  next
    case False
    then obtain d post' where "post = d # post'" "d \<in> set OCTDIGITS" by (cases post) auto
    from c [OF this, of "m_groupindex rm"] rm show ?thesis
      by (simp add: validate_replacement_def match_expand_def)
  qed
  from a b c v show ?thesis by blast
qed

theorem reference_10_expands_group_1_witness:
  "expand_replacement (''n-'' @ backslash # ''10'' @ ''.txt'')
     (enumerate 1 [Some ''A'', Some ''b'', Some ''c'', Some ''d'', Some ''e'', Some ''f'', Some ''g'',
                   Some ''h'', Some ''i'', Some ''J'']) = ''n-A0.txt'' \<and>
   parse_template 10 [] (simplified_template (''n-'' @ backslash # ''10'' @ ''.txt'')) =
     Inr [Literal ''n'', Literal ''-'', GroupRef 10, Literal ''.'', Literal ''t'', Literal ''x'', Literal ''t''] \<and>
   validate_replacement
     \<lparr>m_start = 0, m_text = ''AbcdefghiJ'',
      m_groups = [Some ''A'', Some ''b'', Some ''c'', Some ''d'', Some ''e'', Some ''f'', Some ''g'',
                  Some ''h'', Some ''i'', Some ''J''],
      m_groupindex = []\<rparr>
     (''n-'' @ backslash # ''10'' @ ''.txt'') = Inr () \<and>
   expand_replacement (''n-'' @ backslash # ''10'' @ ''0'')
     (enumerate 1 [Some ''A'', Some ''b'', Some ''c'', Some ''d'', Some ''e'', Some ''f'', Some ''g'',
                   Some ''h'', Some ''i'', Some ''J'']) = ''n-A00'' \<and>
   parse_template 10 [] (simplified_template (''n-'' @ backslash # ''10'' @ ''0'')) =
     Inr [Literal ''n'', Literal ''-'', Literal ''@'']"
proof -
  let ?gs = "[Some ''A'', Some ''b'', Some ''c'', Some ''d'', Some ''e'', Some ''f'', Some ''g'',
              Some ''h'', Some ''i'', Some ''J'']"
  let ?rm = "\<lparr>m_start = 0, m_text = ''AbcdefghiJ'', m_groups = ?gs, m_groupindex = []\<rparr>"
  have a: "10 \<le> length ?gs" by simp
  have b: "backslash \<notin> set ''n-''" "backslash \<notin> set ''.txt''"
    by simp_all
  have g1: "backslash \<notin> set (group_text (?gs ! 0))"
    by (simp add: group_text_def)
  have b0: "backslash \<notin> set ''0''" by simp
  have c: "group_text (?gs ! 0) = ''A''" by (simp add: group_text_def)
  have d: "length ?gs = 10" by simp
  have o: "''.txt'' = [] \<or> hd ''.txt'' \<notin> set OCTDIGITS" by (simp add: OCTDIGITS_def)
  have o0: "''0'' = CHR ''0'' # [] \<and> CHR ''0'' \<in> set OCTDIGITS" by (simp add: OCTDIGITS_def)
  have r: "m_groups ?rm = ?gs" by simp
  have at: "char_of (64 + digit_val (CHR ''0'')) = CHR ''@''" by code_simp
  note inst = reference_10_expands_group_1 [OF a b, of "[]"]
  note inst0 = reference_10_expands_group_1 [OF a b(1) b0, of "[]"]
  from inst g1 have x: "expand_replacement (''n-'' @ backslash # ''10'' @ ''.txt'') (enumerate 1 ?gs) = ''n-A0.txt''"
    unfolding c by simp
  from inst o have y: "parse_template 10 [] (simplified_template (''n-'' @ backslash # ''10'' @ ''.txt'')) =
     Inr [Literal ''n'', Literal ''-'', GroupRef 10, Literal ''.'', Literal ''t'', Literal ''x'', Literal ''t'']"
    unfolding d by simp
  from inst r have z: "validate_replacement ?rm (''n-'' @ backslash # ''10'' @ ''.txt'') = Inr ()"
    by blast
  from inst0 g1 have x0: "expand_replacement (''n-'' @ backslash # ''10'' @ ''0'') (enumerate 1 ?gs) = ''n-A00''"
    unfolding c by simp
  from inst0 have "\<forall>d post'. ''0'' = d # post' \<and> d \<in> set OCTDIGITS \<longrightarrow>
            parse_template (length ?gs) [] (simplified_template (''n-'' @ backslash # ''10'' @ ''0'')) =
              Inr (map (\<lambda>c. Literal [c]) ''n-'' @ Literal [char_of (64 + digit_val d)] #
                   map (\<lambda>c. Literal [c]) post')"
    by blast
  from this [rule_format, OF o0]
  have y0: "parse_template 10 [] (simplified_template (''n-'' @ backslash # ''10'' @ ''0'')) =
     Inr [Literal ''n'', Literal ''-'', Literal ''@'']"
    unfolding d at by simp
  from x y z x0 y0 show ?thesis by blast
qed

text \<open>
  The claim as stated fails when the text of group 1 itself holds a backslash: with the
  file name \<^verbatim>\<open>\2xaaaaaaaa\<close>, group 1 is \<^verbatim>\<open>\2\<close> and group 2 is \<^verbatim>\<open>x\<close>; the template
  \<^verbatim>\<open>\10\<close> becomes \<^verbatim>\<open>\20\<close> in the round of group 1 and \<^verbatim>\<open>x0\<close> in the round of group 2,
  which is neither group 1 followed by 0 nor group 10.
\<close>

theorem reference_10_counterexample:
  "(case match_filename (backslash # ''2xaaaaaaaa'') (Compiled pattern_ten_groups) (Some (backslash # ''10'')) True 0 of
      Inr (Some m) \<Rightarrow> (length (groups m), groups m ! 0, groups m ! 9, name_to m)
    | _ \<Rightarrow> (0, (0, None), (0, None), None)) =
     (10, (1, Some (backslash # ''2'')), (10, Some ''a''), Some ''x0'')"
  by code_simp

section \<open>Templates of pieces: one round and the whole loop\<close>

text \<open>Textual replacement on a template written from pieces acts piece by piece, because
  every backslash of such a template starts a piece.\<close>


lemma digit_char_cases:
  assumes "i \<le> 9"
  shows "i = 0 \<or> i = 1 \<or> i = 2 \<or> i = 3 \<or> i = 4 \<or> i = 5 \<or> i = 6 \<or> i = 7 \<or> i = 8 \<or> i = (9::nat)"
  using assms by arith

lemma digit_char_not_special:
  "i \<le> 9 \<Longrightarrow> digit_char i \<noteq> backslash \<and> digit_char i \<noteq> CHR ''L'' \<and> digit_char i \<noteq> CHR ''U''"
  using digit_char_cases [of i] by (auto simp: digit_char_def)

lemma digit_char_inj:
  assumes "i \<le> 9" "j \<le> 9"
  shows "digit_char i = digit_char j \<longleftrightarrow> i = j"
  using digit_char_cases [OF assms(1)] digit_char_cases [OF assms(2)]
  by (elim disjE) (simp_all add: digit_char_def)

lemma render_Nil [simp]: "render [] = []"
  by (simp add: render_def)

lemma render_Cons [simp]: "render (p # ps) = render_piece p @ render ps"
  by (simp add: render_def)

lemma render_append [simp]: "render (ps @ qs) = render ps @ render qs"
  by (simp add: render_def)

lemma render_Text [simp]: "render (map Text s) = s"
  by (induction s) simp_all

lemma render_concat: "render (concat pss) = concat (map render pss)"
  by (induction pss) simp_all

lemma scan_piece_miss:
  assumes t: "is_ref i t" "i \<le> 9"
    and p: "piece_pending k n p"
    and ne: "p \<noteq> t"
    and plain: "t = Plain i \<Longrightarrow> p \<noteq> Lower i \<and> p \<noteq> Upper i"
  shows "replace_scan (render_piece t) new (render_piece p @ s) =
         render_piece p @ replace_scan (render_piece t) new s"
proof (cases p)
  case (Text c)
  with p have "c \<noteq> backslash" by simp
  with Text t show ?thesis by (auto simp: is_ref_def)
next
  case (Plain j)
  with p have j: "j \<le> 9" by simp
  note d = digit_char_not_special [OF j] digit_char_not_special [OF t(2)] digit_char_inj [OF j t(2)]
  from Plain t ne j d show ?thesis
    by (auto simp: is_ref_def str_of_nat_digit)
next
  case (Lower j)
  with p have j: "j \<le> 9" by simp
  note d = digit_char_not_special [OF j] digit_char_not_special [OF t(2)] digit_char_inj [OF j t(2)]
  from Lower t ne plain j d show ?thesis
    by (auto simp: is_ref_def str_of_nat_digit)
next
  case (Upper j)
  with p have j: "j \<le> 9" by simp
  note d = digit_char_not_special [OF j] digit_char_not_special [OF t(2)] digit_char_inj [OF j t(2)]
  from Upper t ne plain j d show ?thesis
    by (auto simp: is_ref_def str_of_nat_digit)
qed

lemma scan_piece_hit:
  assumes "is_ref i t" "i \<le> 9"
  shows "replace_scan (render_piece t) new (render_piece t @ s) =
         new @ replace_scan (render_piece t) new s"
  using assms by (auto simp: is_ref_def str_of_nat_digit)

lemma scan_pieces:
  assumes t: "is_ref i t" "i \<le> 9"
    and ps: "list_all (piece_pending k n) ps"
    and plain: "t = Plain i \<Longrightarrow> Lower i \<notin> set ps \<and> Upper i \<notin> set ps"
  shows "replace_scan (render_piece t) new (render ps) = render (concat (map (subst1 t new) ps))"
  using ps plain
proof (induction ps)
  case Nil
  from t show ?case by (auto simp: is_ref_def)
next
  case (Cons p ps)
  from Cons.prems have p: "piece_pending k n p" and rest: "list_all (piece_pending k n) ps" by simp_all
  from Cons.prems(2) have plain': "t = Plain i \<Longrightarrow> Lower i \<notin> set ps \<and> Upper i \<notin> set ps" by simp
  note IH = Cons.IH [OF rest plain']
  show ?case
  proof (cases "p = t")
    case True
    with scan_piece_hit [OF t, of new "render ps"] IH show ?thesis
      by (simp add: subst1_def)
  next
    case False
    from Cons.prems(2) have "t = Plain i \<Longrightarrow> p \<noteq> Lower i \<and> p \<noteq> Upper i" by auto
    from scan_piece_miss [OF t p False this, of new "render ps"] IH False show ?thesis
      by (simp add: subst1_def)
  qed
qed

lemma py_replace_pieces:
  assumes "is_ref i t" "i \<le> 9" "list_all (piece_pending k n) ps"
    and "t = Plain i \<Longrightarrow> Lower i \<notin> set ps \<and> Upper i \<notin> set ps"
  shows "py_replace (render_piece t) new (render ps) = render (concat (map (subst1 t new) ps))"
proof -
  from assms(1) have "render_piece t \<noteq> []" by (auto simp: is_ref_def)
  with scan_pieces [OF assms] show ?thesis by (simp add: py_replace_def)
qed

lemma subst1_absent: "t \<notin> set ps \<Longrightarrow> concat (map (subst1 t new) ps) = ps"
  by (induction ps) (auto simp: subst1_def)

lemma sublist_render_Lower: "Lower i \<in> set ps \<Longrightarrow> sublist [backslash, CHR ''L''] (render ps)"
proof -
  assume "Lower i \<in> set ps"
  then obtain a b where "ps = a @ Lower i # b" by (auto simp: in_set_conv_decomp)
  then have "render ps = render a @ [backslash, CHR ''L''] @ (backslash # str_of_nat i @ render b)"
    by simp
  then show ?thesis unfolding sublist_def by blast
qed

lemma sublist_render_Upper: "Upper i \<in> set ps \<Longrightarrow> sublist [backslash, CHR ''U''] (render ps)"
proof -
  assume "Upper i \<in> set ps"
  then obtain a b where "ps = a @ Upper i # b" by (auto simp: in_set_conv_decomp)
  then have "render ps = render a @ [backslash, CHR ''U''] @ (backslash # str_of_nat i @ render b)"
    by simp
  then show ?thesis unfolding sublist_def by blast
qed

lemma lower_char_backslash: "lower_char c = backslash \<Longrightarrow> c = backslash"
proof -
  assume a: "lower_char c = backslash"
  show ?thesis
  proof (cases "map_of (zip upper_letters lower_letters) c")
    case None
    with a show ?thesis by (simp add: lower_char_def)
  next
    case (Some d)
    then have "d \<in> set lower_letters" by (auto dest!: map_of_SomeD set_zip_rightD)
    moreover from a Some have "d = backslash" by (simp add: lower_char_def)
    ultimately show ?thesis by (simp add: lower_letters_def)
  qed
qed

lemma upper_char_backslash: "backslash \<in> set (upper_char c) \<Longrightarrow> c = backslash"
proof -
  assume a: "backslash \<in> set (upper_char c)"
  show ?thesis
  proof (cases "c = CHR 0xDF")
    case True
    with a show ?thesis by (simp add: upper_char_def)
  next
    case False
    show ?thesis
    proof (cases "map_of (zip lower_letters upper_letters) c")
      case None
      with a False show ?thesis by (simp add: upper_char_def)
    next
      case (Some d)
      then have "d \<in> set upper_letters" by (auto dest!: map_of_SomeD set_zip_rightD)
      moreover from a Some False have "d = backslash" by (simp add: upper_char_def)
      ultimately show ?thesis by (simp add: upper_letters_def)
    qed
  qed
qed

lemma py_lower_no_backslash: "backslash \<notin> set s \<Longrightarrow> backslash \<notin> set (py_lower s)"
  by (auto simp: py_lower_def dest: lower_char_backslash [OF sym])

lemma py_upper_no_backslash: "backslash \<notin> set s \<Longrightarrow> backslash \<notin> set (py_upper s)"
  by (auto simp: py_upper_def dest: upper_char_backslash)

lemma concat_map_concat:
  "concat (map f (concat (map h ps))) = concat (map (\<lambda>p. concat (map f (h p))) ps)"
  by (induction ps) simp_all

lemma pending_Text: "backslash \<notin> set s \<Longrightarrow> list_all (piece_pending k n) (map Text s)"
  by (induction s) auto

lemma pending_subst1:
  assumes "list_all (piece_pending k n) ps" "backslash \<notin> set new"
  shows "list_all (piece_pending k n) (concat (map (subst1 t new) ps))"
  using assms(1)
proof (induction ps)
  case Nil
  then show ?case by simp
next
  case (Cons p ps)
  then show ?case using pending_Text [OF assms(2), of k n] by (simp add: subst1_def)
qed

lemma subst1_removes: "t \<notin> set (map Text new) \<Longrightarrow> t \<notin> set (concat (map (subst1 t new) ps))"
  by (induction ps) (auto simp: subst1_def)

lemma subst1_keeps_absent:
  "u \<notin> set ps \<Longrightarrow> u \<notin> set (map Text new) \<Longrightarrow> u \<notin> set (concat (map (subst1 t new) ps))"
  by (induction ps) (auto simp: subst1_def)

lemma subst1_on_Text:
  "\<forall>c. t \<noteq> Text c \<Longrightarrow> concat (map (subst1 t new) (map Text s)) = map Text s"
  by (induction s) (auto simp: subst1_def)

lemma three_rounds_on_piece:
  "concat (map (\<lambda>q. concat (map (subst1 (Plain i) g) (subst1 (Upper i) (py_upper g) q)))
     (subst1 (Lower i) (py_lower g) p)) =
   subst_piece i g p"
proof (cases p)
  case (Text c)
  then show ?thesis by (simp add: subst1_def)
next
  case (Plain j)
  then show ?thesis by (simp add: subst1_def)
next
  case (Lower j)
  show ?thesis
  proof (cases "j = i")
    case True
    have "concat (map (\<lambda>q. concat (map (subst1 (Plain i) g) (subst1 (Upper i) (py_upper g) q)))
        (map Text s)) = map Text s" for s
      by (induction s) (simp_all add: subst1_def)
    then have "concat (map (\<lambda>q. concat (map (subst1 (Plain i) g) (subst1 (Upper i) (py_upper g) q)))
        (map Text (py_lower g))) = map Text (py_lower g)" by simp
    with True Lower show ?thesis by (simp add: subst1_def)
  next
    case False
    with Lower show ?thesis by (simp add: subst1_def)
  qed
next
  case (Upper j)
  show ?thesis
  proof (cases "j = i")
    case True
    with Upper show ?thesis using subst1_on_Text [of "Plain i" g "py_upper g"] by (simp add: subst1_def)
  next
    case False
    with Upper show ?thesis by (simp add: subst1_def)
  qed
qed

lemma expand_group_pieces:
  assumes i: "i \<le> 9"
    and ps: "list_all (piece_pending k n) ps"
    and g: "backslash \<notin> set (group_text grp)"
  shows "expand_group (render ps) i grp = render (concat (map (subst_piece i (group_text grp)) ps))"
proof -
  define g where "g = group_text grp"
  define ps1 where "ps1 = concat (map (subst1 (Lower i) (py_lower g)) ps)"
  define ps2 where "ps2 = concat (map (subst1 (Upper i) (py_upper g)) ps1)"
  define ps3 where "ps3 = concat (map (subst1 (Plain i) g) ps2)"
  have gb: "backslash \<notin> set g" using assms(3) by (simp add: g_def)
  have p1: "list_all (piece_pending k n) ps1"
    unfolding ps1_def by (rule pending_subst1 [OF ps py_lower_no_backslash [OF gb]])
  have p2: "list_all (piece_pending k n) ps2"
    unfolding ps2_def by (rule pending_subst1 [OF p1 py_upper_no_backslash [OF gb]])
  have noL1: "Lower i \<notin> set ps1" unfolding ps1_def by (rule subst1_removes) auto
  have noL2: "Lower i \<notin> set ps2" unfolding ps2_def by (rule subst1_keeps_absent [OF noL1]) auto
  have noU2: "Upper i \<notin> set ps2" unfolding ps2_def by (rule subst1_removes) auto
  have n1: "(if sublist [backslash, CHR ''L''] (render ps)
             then py_replace (backslash # CHR ''L'' # backslash # str_of_nat i) (py_lower g) (render ps)
             else render ps) = render ps1"
  proof (cases "sublist [backslash, CHR ''L''] (render ps)")
    case True
    have "py_replace (render_piece (Lower i)) (py_lower g) (render ps) = render ps1"
      unfolding ps1_def by (rule py_replace_pieces [OF _ i ps]) (simp_all add: is_ref_def)
    with True show ?thesis by simp
  next
    case False
    then have "Lower i \<notin> set ps" using sublist_render_Lower [of i ps] by blast
    then have "ps1 = ps" unfolding ps1_def by (rule subst1_absent)
    with False show ?thesis by simp
  qed
  have n2: "(if sublist [backslash, CHR ''U''] (render ps1)
             then py_replace (backslash # CHR ''U'' # backslash # str_of_nat i) (py_upper g) (render ps1)
             else render ps1) = render ps2"
  proof (cases "sublist [backslash, CHR ''U''] (render ps1)")
    case True
    have "py_replace (render_piece (Upper i)) (py_upper g) (render ps1) = render ps2"
      unfolding ps2_def by (rule py_replace_pieces [OF _ i p1]) (simp_all add: is_ref_def)
    with True show ?thesis by simp
  next
    case False
    then have "Upper i \<notin> set ps1" using sublist_render_Upper [of i ps1] by blast
    then have "ps2 = ps1" unfolding ps2_def by (rule subst1_absent)
    with False show ?thesis by simp
  qed
  have n3: "py_replace (backslash # str_of_nat i) g (render ps2) = render ps3"
  proof -
    have "py_replace (render_piece (Plain i)) g (render ps2) = render ps3"
      unfolding ps3_def using noL2 noU2 by (intro py_replace_pieces [OF _ i p2]) (simp_all add: is_ref_def)
    then show ?thesis by simp
  qed
  have "ps3 = concat (map (subst_piece i g) ps)"
    unfolding ps3_def ps2_def ps1_def concat_map_concat three_rounds_on_piece ..
  moreover have "expand_group (render ps) i grp = render ps3"
    unfolding expand_group_def Let_def g_def [symmetric] n1 n2 n3 ..
  ultimately show ?thesis by (simp add: g_def)
qed

lemma pending_after_round:
  assumes "list_all (piece_pending k (Suc n)) ps" "backslash \<notin> set g"
  shows "list_all (piece_pending (Suc k) n) (concat (map (subst_piece k g) ps))"
  using assms(1)
proof (induction ps)
  case Nil
  then show ?case by simp
next
  case (Cons p ps)
  note T = pending_Text [OF assms(2), of "Suc k" n]
    pending_Text [OF py_lower_no_backslash [OF assms(2)], of "Suc k" n]
    pending_Text [OF py_upper_no_backslash [OF assms(2)], of "Suc k" n]
  from Cons.prems have p: "piece_pending k (Suc n) p" by simp
  have "list_all (piece_pending (Suc k) n) (subst_piece k g p)"
    using p T by (cases p) auto
  with Cons show ?case by simp
qed

lemma resolve_after_round:
  assumes "piece_pending k (Suc n) p"
  shows "concat (map (resolve_from (Suc k) gs) (subst_piece k (group_text g) p)) =
         resolve_from k (g # gs) p"
proof -
  have T: "concat (map (resolve_from (Suc k) gs \<circ> Text) s) = s" for s
    by (induction s) simp_all
  have nth: "(g # gs) ! (j - k) = gs ! (j - Suc k)" if "k < j" for j
  proof -
    from that have "j - k = Suc (j - Suc k)" by arith
    then show ?thesis by simp
  qed
  from assms show ?thesis
    by (cases p) (auto simp: T nth le_neq_implies_less)
qed

lemma texts_only:
  assumes "list_all (piece_pending k n) ps" "n = 0 \<or> 9 < k"
  shows "list_all (\<lambda>p. \<exists>c. p = Text c \<and> c \<noteq> backslash) ps"
  using assms(1)
proof (induction ps)
  case Nil
  then show ?case by simp
next
  case (Cons p ps)
  from Cons.prems have "piece_pending k n p" by simp
  with assms(2) obtain c where "p = Text c" "c \<noteq> backslash" by (cases p) auto
  with Cons show ?case by simp
qed

lemma texts_render:
  "list_all (\<lambda>p. \<exists>c. p = Text c \<and> c \<noteq> backslash) ps \<Longrightarrow>
     render ps = concat (map (resolve_from k gs) ps)"
  by (induction ps) auto

lemma texts_no_backslash:
  "list_all (\<lambda>p. \<exists>c. p = Text c \<and> c \<noteq> backslash) ps \<Longrightarrow> backslash \<notin> set (render ps)"
  by (induction ps) auto

lemma expand_loop_pieces:
  assumes "list_all (piece_pending k (length gs)) ps"
    and "list_all (\<lambda>g. backslash \<notin> set (group_text g)) gs"
  shows "expand_loop (render ps) (enumerate k gs) = concat (map (resolve_from k gs) ps)"
  using assms
proof (induction gs arbitrary: k ps)
  case Nil
  from texts_only [of k 0 ps] Nil.prems(1)
  have "list_all (\<lambda>p. \<exists>c. p = Text c \<and> c \<noteq> backslash) ps" by simp
  from texts_render [OF this, of k "[]"] show ?case by simp
next
  case (Cons g gs)
  from Cons.prems(2) have g: "backslash \<notin> set (group_text g)"
    and gs: "list_all (\<lambda>g. backslash \<notin> set (group_text g)) gs" by simp_all
  from Cons.prems(1) have ps: "list_all (piece_pending k (Suc (length gs))) ps" by simp
  show ?case
  proof (cases "k \<le> 9")
    case True
    let ?ps' = "concat (map (subst_piece k (group_text g)) ps)"
    have step: "expand_group (render ps) k g = render ?ps'"
      by (rule expand_group_pieces [OF True ps g])
    have "expand_loop (render ?ps') (enumerate (Suc k) gs) = concat (map (resolve_from (Suc k) gs) ?ps')"
      by (rule Cons.IH [OF pending_after_round [OF ps g] gs])
    also have "\<dots> = concat (map (\<lambda>p. concat (map (resolve_from (Suc k) gs) (subst_piece k (group_text g) p))) ps)"
      by (rule concat_map_concat)
    also have "\<dots> = concat (map (resolve_from k (g # gs)) ps)"
    proof -
      have "\<forall>p \<in> set ps. concat (map (resolve_from (Suc k) gs) (subst_piece k (group_text g) p)) =
          resolve_from k (g # gs) p"
        using ps resolve_after_round [of k "length gs" _ gs g] by (auto simp: list_all_iff)
      then show ?thesis by (metis (mono_tags, lifting) map_eq_conv)
    qed
    finally show ?thesis using step by simp
  next
    case False
    then have "9 < k" by simp
    with texts_only [OF Cons.prems(1)]
    have t: "list_all (\<lambda>p. \<exists>c. p = Text c \<and> c \<noteq> backslash) ps" by simp
    from expand_loop_no_backslash [OF texts_no_backslash [OF t], of "enumerate k (g # gs)"]
      texts_render [OF t, of k "g # gs"]
    show ?thesis by simp
  qed
qed

lemma piece_ok_pending: "piece_ok n p \<Longrightarrow> piece_pending (Suc 0) n p"
  by (cases p) auto

lemma resolve_from_1: "resolve_from (Suc 0) gs = resolve gs"
proof
  fix p show "resolve_from (Suc 0) gs p = resolve gs p" by (cases p) simp_all
qed

lemma resolve_no_backslash:
  assumes "piece_ok (length gs) p" "list_all (\<lambda>g. backslash \<notin> set (group_text g)) gs"
  shows "backslash \<notin> set (resolve gs p)"
proof -
  have "backslash \<notin> set (group_text (gs ! (i - 1)))" if "1 \<le> i" "i \<le> length gs" for i
  proof -
    from that have "gs ! (i - 1) \<in> set gs" by (intro nth_mem) arith
    with assms(2) show ?thesis by (simp add: list_all_iff)
  qed
  with assms(1) show ?thesis
    by (cases p) (auto simp: py_lower_no_backslash py_upper_no_backslash simp del: One_nat_def)
qed

text \<open>
  Claim C4, as amended. Let a template be written from text without a backslash and the
  reference forms \<^verbatim>\<open>\i\<close>, \<^verbatim>\<open>\L\i\<close>, \<^verbatim>\<open>\U\i\<close>, each with a single digit \<open>i\<close> from 1 to
  the number of groups, and let no group's text hold a backslash. Then expansion against
  the groups, numbered from 1 in ascending order, puts every piece's value in its place:
  the result is the concatenation of the resolved pieces, it holds no backslash, and so no
  back-reference to any group is left in it.
\<close>

theorem simple_template_leaves_no_reference:
  assumes "list_all (piece_ok (length gs)) ps"
    and "list_all (\<lambda>g. backslash \<notin> set (group_text g)) gs"
  shows "expand_replacement (render ps) (enumerate 1 gs) = concat (map (resolve gs) ps) \<and>
         backslash \<notin> set (expand_replacement (render ps) (enumerate 1 gs)) \<and>
         (\<forall>i. \<not> sublist (backslash # str_of_nat i) (expand_replacement (render ps) (enumerate 1 gs)))"
proof -
  from assms(1) have "list_all (piece_pending (Suc 0) (length gs)) ps"
    by (auto simp: list_all_iff dest: piece_ok_pending)
  from expand_loop_pieces [OF this assms(2)]
  have eq: "expand_replacement (render ps) (enumerate 1 gs) = concat (map (resolve gs) ps)"
    by (simp add: expand_replacement_def resolve_from_1)
  have nb: "backslash \<notin> set (concat (map (resolve gs) ps))"
    using assms resolve_no_backslash [of gs] by (auto simp: list_all_iff)
  from nb have "\<not> sublist (backslash # str_of_nat i) (concat (map (resolve gs) ps))" for i
    by (rule sublist_absent)
  with eq nb show ?thesis by simp
qed

theorem simple_template_leaves_no_reference_witness:
  "expand_replacement (render [Lower 1, Text (CHR ''-''), Upper 2, Plain 1])
     (enumerate 1 [Some ''Abc'', Some ''abc'']) = ''abc-ABCAbc'' \<and>
   render [Lower 1, Text (CHR ''-''), Upper 2, Plain 1] =
     backslash # CHR ''L'' # backslash # ''1-'' @ backslash # CHR ''U'' # backslash # ''2'' @ backslash # ''1'' \<and>
   backslash \<notin> set (expand_replacement (render [Lower 1, Text (CHR ''-''), Upper 2, Plain 1])
     (enumerate 1 [Some ''Abc'', Some ''abc'']))"
proof -
  let ?ps = "[Lower 1, Text (CHR ''-''), Upper 2, Plain 1]"
  let ?gs = "[Some ''Abc'', Some ''abc'']"
  have a: "list_all (piece_ok (length ?gs)) ?ps" by simp
  have b: "list_all (\<lambda>g. backslash \<notin> set (group_text g)) ?gs" by (simp add: group_text_def)
  have c: "concat (map (resolve ?gs) ?ps) = ''abc-ABCAbc''" by code_simp
  have d: "render ?ps =
     backslash # CHR ''L'' # backslash # ''1-'' @ backslash # CHR ''U'' # backslash # ''2'' @ backslash # ''1''"
    by code_simp
  from simple_template_leaves_no_reference [OF a b] c d show ?thesis by simp
qed

text \<open>
  The claim as stated fails. The template \<^verbatim>\<open>\g<1>\<close> passes validation, for the library
  reads it as a reference to group 1; expansion does not know this form and returns it
  as it is, a reference to group 1 still. And the template \<^verbatim>\<open>\\11\<close> passes validation
  as an escaped backslash before two digits; when group 1 took no part in the match,
  expansion removes the inner \<^verbatim>\<open>\1\<close> and leaves \<^verbatim>\<open>\1\<close>.
\<close>

theorem unresolved_reference_counterexample:
  "(case match_filename ''a1.txt'' (Compiled pattern_a_digit) (Some (backslash # ''g<1>'')) True 0 of
      Inr (Some m) \<Rightarrow> name_to m | _ \<Rightarrow> None) = Some (backslash # ''g<1>'') \<and>
   parse_template 1 [] (backslash # ''g<1>'') = Inr [GroupRef 1] \<and>
   (case match_filename ''y'' (Compiled pattern_opt_x_y) (Some (backslash # backslash # ''11'')) True 0 of
      Inr (Some m) \<Rightarrow> (groups m, name_to m) | _ \<Rightarrow> ([], None)) =
     ([(1, None)], Some (backslash # ''1'')) \<and>
   sublist (backslash # str_of_nat 1) (backslash # ''1'')"
  by code_simp

section \<open>Validation: the template parser and the number of groups\<close>

lemma addgroup_le: "addgroup n i t = Inr (item, t') \<Longrightarrow> item = GroupRef i \<and> i \<le> n \<and> t' = t"
  by (auto simp: addgroup_def split: if_splits)

lemma addgroup_mono: "addgroup n' i t = Inr (item, t') \<Longrightarrow> i \<le> n \<Longrightarrow> addgroup n i t = Inr (item, t')"
  by (auto simp: addgroup_def split: if_splits)

lemma parse_named_le: "parse_named n gi t = Inr (GroupRef i, t') \<Longrightarrow> i \<le> n"
  by (auto simp: parse_named_def split: if_splits sum.splits option.splits dest!: addgroup_le)

lemma parse_named_ref: "parse_named n gi t = Inr (item, t') \<Longrightarrow> \<exists>i. item = GroupRef i"
  by (auto simp: parse_named_def split: if_splits sum.splits option.splits dest!: addgroup_le)

lemma parse_named_mono:
  "parse_named n' gi t = Inr (GroupRef i, t') \<Longrightarrow> i \<le> n \<Longrightarrow> parse_named n gi t = Inr (GroupRef i, t')"
  by (auto simp: parse_named_def split: if_splits sum.splits option.splits
      dest!: addgroup_le intro!: addgroup_mono simp: addgroup_def)


lemma parse_zero_literal: "parse_zero t = Inr (item, t') \<Longrightarrow> \<exists>s. item = Literal s"
  by (auto simp: parse_zero_def split: if_splits sum.splits)

lemma parse_octal3_literal: "parse_octal3 c d1 t = Inr (item, t') \<Longrightarrow> \<exists>s. item = Literal s"
  by (auto simp: parse_octal3_def Let_def split: if_splits sum.splits)

lemma parse_digit_le: "parse_digit n c t = Inr (GroupRef i, t') \<Longrightarrow> i \<le> n"
  by (auto simp: parse_digit_def split: if_splits sum.splits dest!: addgroup_le parse_octal3_literal)

lemma parse_item_le: "parse_item n gi this t = Inr (GroupRef i, t') \<Longrightarrow> i \<le> n"
  by (auto simp: parse_item_def Let_def split: if_splits option.splits
      dest: parse_named_le parse_digit_le parse_zero_literal)



lemma parse_digit_mono:
  assumes "parse_digit n' c t = Inr (item, t')" and "\<And>i. item = GroupRef i \<Longrightarrow> i \<le> n"
  shows "parse_digit n c t = Inr (item, t')"
proof (cases "next_in t DIGITS")
  case False
  with assms(1) have a: "addgroup n' (int_of_digits 10 [c]) t = Inr (item, t')"
    by (simp add: parse_digit_def)
  from addgroup_le [OF a] assms(2) have "int_of_digits 10 [c] \<le> n" by simp
  from addgroup_mono [OF a this] False show ?thesis by (simp add: parse_digit_def)
next
  case True
  show ?thesis
  proof (cases "tok_get t")
    case (Inl e)
    with assms(1) True show ?thesis by (simp add: parse_digit_def)
  next
    case (Inr p)
    obtain d1 t1 where p: "p = (d1, t1)" by (cases p)
    show ?thesis
    proof (cases "c \<in> set OCTDIGITS \<and> hd (the d1) \<in> set OCTDIGITS \<and> next_in t1 OCTDIGITS")
      case oct: True
      have "parse_digit n c t = parse_digit n' c t"
        using True Inr p oct by (simp add: parse_digit_def)
      with assms(1) show ?thesis by simp
    next
      case noct: False
      with assms(1) True Inr p
      have a: "addgroup n' (int_of_digits 10 (c # the d1)) t1 = Inr (item, t')"
        by (simp add: parse_digit_def)
      from addgroup_le [OF a] assms(2) have "int_of_digits 10 (c # the d1) \<le> n" by simp
      from addgroup_mono [OF a this] True Inr p noct show ?thesis by (auto simp: parse_digit_def)
    qed
  qed
qed

lemma parse_item_mono:
  assumes "parse_item n' gi this t = Inr (item, t')" and "\<And>i. item = GroupRef i \<Longrightarrow> i \<le> n"
  shows "parse_item n gi this t = Inr (item, t')"
proof (cases "hd this = backslash")
  case False
  with assms(1) show ?thesis by (simp add: parse_item_def)
next
  case True
  define c where "c = this ! 1"
  define other where "other = (case map_of ESCAPES c of
       Some x \<Rightarrow> Inr (Literal [x], t)
     | None \<Rightarrow> if c \<in> set ASCIILETTERS then Inl (ReError_bad_escape this) else Inr (Literal this, t))"
  have eq: "parse_item m gi this t =
      (if c = CHR ''g'' then parse_named m gi t
       else if c = CHR ''0'' then parse_zero t
       else if c \<in> set DIGITS then parse_digit m c t
       else other)" for m
    unfolding parse_item_def Let_def c_def other_def using True by (simp only: if_True simp_thms)
  show ?thesis
  proof (cases "c = CHR ''g''")
    case g: True
    with assms(1) have a: "parse_named n' gi t = Inr (item, t')"
      unfolding eq by (simp only: if_True simp_thms)
    from parse_named_ref [OF a] obtain i where i: "item = GroupRef i" by blast
    with assms(2) have le: "i \<le> n" by blast
    from a i have a': "parse_named n' gi t = Inr (GroupRef i, t')" by simp
    from parse_named_mono [OF a' le] i have "parse_named n gi t = Inr (item, t')" by simp
    with g show ?thesis unfolding eq by (simp only: if_True simp_thms)
  next
    case ng: False
    show ?thesis
    proof (cases "c = CHR ''0''")
      case z: True
      from assms(1) ng z show ?thesis unfolding eq by (simp only: if_True if_False simp_thms)
    next
      case nz: False
      show ?thesis
      proof (cases "c \<in> set DIGITS")
        case d: True
        with assms(1) ng nz have a: "parse_digit n' c t = Inr (item, t')"
          unfolding eq by (simp only: if_True if_False simp_thms)
        from parse_digit_mono [OF a assms(2)] ng nz d show ?thesis
          unfolding eq by (simp only: if_True if_False simp_thms)
      next
        case nd: False
        from assms(1) ng nz nd show ?thesis unfolding eq by (simp only: if_True if_False simp_thms)
      qed
    qed
  qed
qed

lemma parse_loop_cases:
  assumes "parse_loop n gi t = Inr items"
  obtains (stop) t1 where "tok_get t = Inr (None, t1)" "items = []"
  | (step) this t1 item t2 rest where "tok_get t = Inr (Some this, t1)"
      "parse_item n gi this t1 = Inr (item, t2)" "parse_loop n gi t2 = Inr rest" "items = item # rest"
  using assms
  by (subst (asm) parse_loop.simps) (auto split: sum.splits option.splits prod.splits)

lemma parse_loop_le:
  "parse_loop n gi t = Inr items \<Longrightarrow> i \<in> set (group_refs items) \<Longrightarrow> i \<le> n"
proof (induction n gi t arbitrary: items rule: parse_loop.induct)
  case (1 n gi t)
  from "1.prems"(1) show ?case
  proof (cases rule: parse_loop_cases)
    case (stop t1)
    with "1.prems"(2) show ?thesis by simp
  next
    case (step this t1 item t2 rest)
    show ?thesis
    proof (cases "i \<in> set (group_refs rest)")
      case True
      from "1.IH" [OF step(1) refl refl step(2) refl step(3) True] show ?thesis .
    next
      case False
      with "1.prems"(2) step(4) have "item = GroupRef i" by (cases item) auto
      with step(2) show ?thesis by (auto dest: parse_item_le)
    qed
  qed
qed

lemma parse_loop_mono:
  "parse_loop n' gi t = Inr items \<Longrightarrow> (\<And>i. i \<in> set (group_refs items) \<Longrightarrow> i \<le> n) \<Longrightarrow>
     parse_loop n gi t = Inr items"
proof (induction n' gi t arbitrary: items rule: parse_loop.induct)
  case (1 n' gi t)
  from "1.prems"(1) show ?case
  proof (cases rule: parse_loop_cases)
    case (stop t1)
    then show ?thesis by (subst parse_loop.simps) simp
  next
    case (step this t1 item t2 rest)
    have rest: "parse_loop n gi t2 = Inr rest"
      using "1.prems"(2) step(4)
      by (intro "1.IH" [OF step(1) refl refl step(2) refl step(3)]) (cases item; simp)
    have "parse_item n gi this t1 = Inr (item, t2)"
      using "1.prems"(2) step(4) by (intro parse_item_mono [OF step(2)]) simp
    with step(1,4) rest show ?thesis by (subst parse_loop.simps) simp
  qed
qed

lemma parse_template_iff:
  assumes "parse_template n' gi s = Inr items"
  shows "parse_template n gi s = Inr items \<longleftrightarrow> (\<forall>i \<in> set (group_refs items). i \<le> n)"
proof
  assume "parse_template n gi s = Inr items"
  then show "\<forall>i \<in> set (group_refs items). i \<le> n"
    by (auto simp: parse_template_def split: sum.splits dest: parse_loop_le)
next
  assume "\<forall>i \<in> set (group_refs items). i \<le> n"
  with assms show "parse_template n gi s = Inr items"
    by (auto simp: parse_template_def split: sum.splits intro: parse_loop_mono)
qed

lemma parse_template_unique:
  assumes "parse_template n' gi s = Inr items'" "parse_template n gi s = Inr items"
  shows "items = items'"
proof -
  from assms(2) have "\<forall>i \<in> set (group_refs items). i \<le> n"
    by (auto simp: parse_template_def split: sum.splits dest: parse_loop_le)
  moreover from assms(1) have "\<forall>i \<in> set (group_refs items'). i \<le> n'"
    by (auto simp: parse_template_def split: sum.splits dest: parse_loop_le)
  ultimately have "parse_template (max n n') gi s = Inr items" "parse_template (max n n') gi s = Inr items'"
    using parse_template_iff [OF assms(2), of "max n n'"] parse_template_iff [OF assms(1), of "max n n'"]
    by auto
  then show ?thesis by simp
qed

lemma py_replace_marker_absent:
  assumes "backslash \<notin> set pre" and "backslash \<notin> set w" and "c \<noteq> x" and "c \<noteq> backslash"
  shows "py_replace [backslash, x] new (pre @ backslash # c # w) = pre @ backslash # c # w"
proof -
  have "replace_scan [backslash, x] new w = w"
    using assms(2) by (rule replace_scan_absent)
  then have "replace_scan [backslash, x] new (backslash # c # w) = backslash # c # w"
    using assms(3,4) by simp
  then show ?thesis
    using assms(1) by (simp add: py_replace_def replace_scan_skip)
qed

lemma py_replace_marker_trailing:
  assumes "backslash \<notin> set pre"
  shows "py_replace [backslash, x] new (pre @ [backslash]) = pre @ [backslash]"
  using assms by (simp add: py_replace_def replace_scan_skip)

lemma simplified_template_one_escape:
  assumes "backslash \<notin> set pre" and "backslash \<notin> set w"
    and "c \<noteq> CHR ''L''" and "c \<noteq> CHR ''U''" and "c \<noteq> backslash"
  shows "simplified_template (pre @ backslash # c # w) = pre @ backslash # c # w"
  using assms
  by (simp add: simplified_template_def py_replace_marker_absent)

lemma simplified_template_trailing:
  assumes "backslash \<notin> set pre"
  shows "simplified_template (pre @ [backslash]) = pre @ [backslash]"
  by (simp add: simplified_template_def py_replace_marker_trailing [OF assms])

lemma parse_template_trailing:
  assumes "backslash \<notin> set pre"
  shows "parse_template n gindex (pre @ [backslash]) = Inl ReError_bad_escape_end"
proof -
  have "parse_template n gindex [backslash] = Inl ReError_bad_escape_end"
    by (simp add: parse_template_def)
  then show ?thesis
    unfolding parse_template_plain_prefix [OF assms] by simp
qed

lemma parse_template_bad_letter:
  assumes "backslash \<notin> set pre" and "c \<in> set ASCIILETTERS" and "c \<notin> set ''abfnrtvg''"
  shows "parse_template n gindex (pre @ [backslash, c]) = Inl (ReError_bad_escape [backslash, c])"
proof -
  from assms(2) have nd: "c \<noteq> CHR ''0''" "c \<notin> set DIGITS" "c \<noteq> backslash"
    by (auto simp: ASCIILETTERS_def DIGITS_def)
  from assms(3) nd(3) have esc: "map_of ESCAPES c = None" and g: "c \<noteq> CHR ''g''"
    by (auto simp: ESCAPES_def)
  have "parse_template n gindex [backslash, c] = Inl (ReError_bad_escape [backslash, c])"
    using nd esc g assms(2)
    by (simp add: parse_template_def parse_loop.simps [of n gindex "(Some [backslash, c], [])"]
        tok_get_def parse_item_def)
  then show ?thesis
    unfolding parse_template_plain_prefix [OF assms(1)] by simp
qed

lemma identifier_chars:
  assumes "id_continue c"
  shows "c \<noteq> backslash" and "c \<noteq> CHR ''>''"
  using assms by (auto simp: id_continue_def id_start_def ASCIILETTERS_def DIGITS_def)

lemma identifier_not_digits:
  assumes "py_isidentifier name"
  shows "name \<noteq> []" and "\<not> list_all (\<lambda>c. c \<in> set DIGITS) name"
    and "backslash \<notin> set name" and "CHR ''>'' \<notin> set name"
proof -
  from assms obtain c cs where n: "name = c # cs" and s: "id_start c" and r: "list_all id_continue cs"
    by (auto simp: py_isidentifier_def split: list.splits)
  show "name \<noteq> []" using n by simp
  from s have "c \<notin> set DIGITS" by (auto simp: id_start_def ASCIILETTERS_def DIGITS_def)
  then show "\<not> list_all (\<lambda>c. c \<in> set DIGITS) name" using n by simp
  from s have "id_continue c" by (simp add: id_continue_def)
  with r have "list_all id_continue name" using n by simp
  then show "backslash \<notin> set name" and "CHR ''>'' \<notin> set name"
    using identifier_chars by (auto simp: list_all_iff)
qed

lemma tok_next_plain: "c \<noteq> backslash \<Longrightarrow> tok_next (c # w) = Inr (Some [c], w)"
  by simp

lemma getuntil_name:
  assumes "backslash \<notin> set name" and "CHR ''>'' \<notin> set name" and "acc @ name \<noteq> []"
    and "tok_next rest = Inr tr"
  shows "\<exists>t. tok_next (name @ CHR ''>'' # rest) = Inr t \<and> getuntil t acc = Inr (acc @ name, tr)"
  using assms(1-3)
proof (induction name arbitrary: acc)
  case Nil
  then have "acc \<noteq> []" by simp
  with assms(4) have "getuntil (Some ''>'', rest) acc = Inr (acc, tr)"
    by (subst getuntil.simps) simp
  then show ?case by simp
next
  case (Cons c cs)
  then have c: "c \<noteq> backslash" "c \<noteq> CHR ''>''" and cs: "backslash \<notin> set cs" "CHR ''>'' \<notin> set cs"
    by auto
  from Cons.IH [OF cs, of "acc @ [c]"]
  obtain t where t: "tok_next (cs @ CHR ''>'' # rest) = Inr t"
    and g: "getuntil t (acc @ [c]) = Inr (acc @ c # cs, tr)" by auto
  have "getuntil (Some [c], cs @ CHR ''>'' # rest) acc = Inr (acc @ c # cs, tr)"
    using t g c by (subst getuntil.simps) simp
  with c show ?case by simp
qed

lemma parse_template_named:
  assumes "py_isidentifier name"
  shows "parse_template n gindex (backslash # ''g<'' @ name @ ''>'') =
    (case map_of gindex name of
       None \<Rightarrow> Inl (IndexError_unknown_group_name name)
     | Some i \<Rightarrow> if i \<le> n then Inr [GroupRef i] else Inl (ReError_invalid_group_reference i))"
proof -
  note id = identifier_not_digits [OF assms]
  have e: "tok_next [] = Inr (None, [])" by simp
  from getuntil_name [OF id(3,4) _ e, of "[]"] id(1)
  obtain t where t: "tok_next (name @ ''>'') = Inr t" and g: "getuntil t [] = Inr (name, (None, []))"
    by auto
  have named: "parse_named n gindex (Some ''<'', name @ ''>'') =
    (case map_of gindex name of
       None \<Rightarrow> Inl (IndexError_unknown_group_name name)
     | Some i \<Rightarrow> addgroup n i (None, []))"
    using t g id(2) assms by (simp add: parse_named_def)
  have l: "parse_loop n gindex (None, []) = Inr []"
    by (subst parse_loop.simps) (simp add: tok_get_def)
  have "parse_loop n gindex (Some [backslash, CHR ''g''], CHR ''<'' # name @ ''>'') =
    (case map_of gindex name of
       None \<Rightarrow> Inl (IndexError_unknown_group_name name)
     | Some i \<Rightarrow> if i \<le> n then Inr [GroupRef i] else Inl (ReError_invalid_group_reference i))"
    by (subst parse_loop.simps)
       (simp add: tok_get_def parse_item_def named l addgroup_def split: option.splits)
  then show ?thesis by (simp add: parse_template_def)
qed

lemma simplified_template_named:
  assumes "py_isidentifier name"
  shows "simplified_template (backslash # ''g<'' @ name @ ''>'') = backslash # ''g<'' @ name @ ''>''"
proof -
  note id = identifier_not_digits [OF assms]
  have "backslash \<notin> set []" "backslash \<notin> set (''<'' @ name @ ''>'')" using id(3) by simp_all
  from simplified_template_one_escape [OF this, of "CHR ''g''"] show ?thesis by simp
qed

lemma expand_group_unreferenced:
  assumes k: "k \<le> 9"
    and ps: "list_all (piece_pending k0 n) ps"
    and no: "Plain k \<notin> set ps" "Lower k \<notin> set ps" "Upper k \<notin> set ps"
  shows "expand_group (render ps) k grp = render ps"
proof -
  have l: "py_replace (backslash # CHR ''L'' # backslash # str_of_nat k) new (render ps) = render ps" for new
    using py_replace_pieces [of k "Lower k" k0 n ps new] k ps subst1_absent [OF no(2), of new]
    by (simp add: is_ref_def)
  have u: "py_replace (backslash # CHR ''U'' # backslash # str_of_nat k) new (render ps) = render ps" for new
    using py_replace_pieces [of k "Upper k" k0 n ps new] k ps subst1_absent [OF no(3), of new]
    by (simp add: is_ref_def)
  have p: "py_replace (backslash # str_of_nat k) new (render ps) = render ps" for new
    using py_replace_pieces [of k "Plain k" k0 n ps new] k ps no subst1_absent [OF no(1), of new]
    by (simp add: is_ref_def)
  show ?thesis by (simp add: expand_group_def Let_def l u p)
qed

lemma expand_loop_nonparticipating:
  assumes i: "i \<le> 9" and p: "is_ref i p"
  shows "k \<le> i \<Longrightarrow> i < k + length gs \<Longrightarrow> gs ! (i - k) = None \<Longrightarrow>
     expand_loop (render [p]) (enumerate k gs) = []"
proof (induction gs arbitrary: k)
  case Nil
  then show ?case by simp
next
  case (Cons g gs)
  show ?case
  proof (cases "k = i")
    case True
    with Cons.prems have g: "g = None" by simp
    have "list_all (piece_pending i (Suc (length gs))) [p]" using i p by (auto simp: is_ref_def)
    from expand_group_pieces [OF i this, of None]
    have "expand_group (render [p]) i None = []"
      using p by (auto simp: group_text_def is_ref_def py_lower_def py_upper_def)
    with True g show ?thesis by (simp add: expand_loop_no_backslash)
  next
    case False
    with Cons.prems have lt: "k < i" by simp
    with i have k9: "k \<le> 9" by simp
    have "list_all (piece_pending k (Suc (length gs))) [p]"
      using i lt Cons.prems p by (auto simp: is_ref_def)
    from expand_group_unreferenced [OF k9 this, of g] lt p
    have step: "expand_group (render [p]) k g = render [p]" by (auto simp: is_ref_def)
    from lt have "i - k = Suc (i - Suc k)" by arith
    with Cons.prems(3) have "gs ! (i - Suc k) = None" by simp
    from Cons.IH [OF _ _ this] lt Cons.prems(2)
    have "expand_loop (render [p]) (enumerate (Suc k) gs) = []" by simp
    with step show ?thesis by simp
  qed
qed

lemma digit_val_digit_char: "i \<le> 9 \<Longrightarrow> digit_val (digit_char i) = i"
  using digit_char_cases [of i] by (auto simp: digit_val_def digit_char_def)

lemma digit_char_in_DIGITS: "i \<le> 9 \<Longrightarrow> digit_char i \<in> set DIGITS"
  using digit_char_cases [of i] by (auto simp: DIGITS_def digit_char_def)

lemma digit_char_not_g0: "1 \<le> i \<Longrightarrow> i \<le> 9 \<Longrightarrow> digit_char i \<noteq> CHR ''g'' \<and> digit_char i \<noteq> CHR ''0''"
  using digit_char_cases [of i] by (auto simp: digit_char_def)

lemma parse_template_single_digit:
  assumes "1 \<le> i" "i \<le> 9" "i \<le> n"
  shows "parse_template n gindex (backslash # str_of_nat i) = Inr [GroupRef i]"
proof -
  let ?d = "digit_char i"
  have item: "parse_item n gindex [backslash, ?d] (None, []) = Inr (GroupRef i, (None, []))"
    using digit_char_not_g0 [OF assms(1,2)] digit_char_in_DIGITS [OF assms(2)]
      digit_val_digit_char [OF assms(2)] assms(3)
    by (simp add: parse_item_def parse_digit_def next_in_def addgroup_def int_of_digits_def)
  have "parse_loop n gindex (None, []) = Inr []"
    by (subst parse_loop.simps) (simp add: tok_get_def)
  with item have "parse_loop n gindex (Some [backslash, ?d], []) = Inr [GroupRef i]"
    by (subst parse_loop.simps) (simp add: tok_get_def)
  then show ?thesis
    using assms(2) by (simp add: parse_template_def str_of_nat_digit)
qed

lemma simplified_single_digit:
  assumes "i \<le> 9"
  shows "simplified_template (backslash # str_of_nat i) = backslash # str_of_nat i"
    and "simplified_template (backslash # CHR ''L'' # backslash # str_of_nat i) = backslash # str_of_nat i"
    and "simplified_template (backslash # CHR ''U'' # backslash # str_of_nat i) = backslash # str_of_nat i"
  using digit_char_not_special [of i] assms
  by (auto simp: simplified_template_def py_replace_def str_of_nat_digit)

lemma validate_replacement_iff:
  "validate_replacement rm template = Inr () \<longleftrightarrow>
     (\<exists>items. parse_template (length (m_groups rm)) (m_groupindex rm) (simplified_template template) = Inr items)"
  by (auto simp: validate_replacement_def match_expand_def split: sum.splits)

lemma validate_replacement_Inl:
  "(\<exists>e. validate_replacement rm template = Inl e) \<longleftrightarrow>
     (\<exists>e. parse_template (length (m_groups rm)) (m_groupindex rm) (simplified_template template) = Inl e)"
  by (auto simp: validate_replacement_def match_expand_def split: sum.splits)

lemma validate_replacement_parse:
  "validate_replacement rm template =
     (case parse_template (length (m_groups rm)) (m_groupindex rm) (simplified_template template) of
        Inl e \<Rightarrow> Inl e
      | Inr items \<Rightarrow> Inr ())"
  by (simp add: validate_replacement_def match_expand_def split: sum.splits)

text \<open>
  Claim C2, as amended. The simplified template is the template with every \<^verbatim>\<open>\L\<close> and
  then every \<^verbatim>\<open>\U\<close> removed. Validation succeeds exactly when the library's template
  parser accepts the simplified template for the pattern's group names and some number
  of groups, and every group number the parsed template refers to is at most the
  pattern's number of groups. So a simplified template that the parser rejects for every
  number of groups fails validation whatever it refers to. Text without a backslash
  followed by a single backslash, or by a backslash and an ASCII letter other than
  \<^verbatim>\<open>a b f n r t v g L U\<close>, fails validation. The template \<^verbatim>\<open>\g<name>\<close>, for an
  identifier \<open>name\<close>, fails validation when the pattern has no group of that name, and
  passes when the name belongs to a group whose number is at most the pattern's number
  of groups. Validation does not look at what the groups captured: it gives the same
  result for any other captures of the same groups. In particular each of the templates \<^verbatim>\<open>\i\<close>, \<^verbatim>\<open>\L\i\<close> and \<^verbatim>\<open>\U\i\<close>, with \<open>i\<close> a
  single digit from 1 to the number of groups, passes validation whether or not group
  \<open>i\<close> took part in the match; and when group \<open>i\<close> took no part, the expansion of each of
  these three templates is the empty string. More generally, in a template written from
  text without a backslash and these three forms, expanded against groups whose texts
  hold no backslash, every piece is replaced by its value, which for a reference to a
  group that took no part is the empty string.
\<close>

theorem validation_checks_group_references:
  "(validate_replacement rm template = Inr () \<longleftrightarrow>
      (\<exists>n' items.
         parse_template n' (m_groupindex rm) (simplified_template template) = Inr items \<and>
         (\<forall>i \<in> set (group_refs items). i \<le> length (m_groups rm)))) \<and>
   ((\<forall>n'. \<exists>e. parse_template n' (m_groupindex rm) (simplified_template template) = Inl e) \<longrightarrow>
      (\<exists>e. validate_replacement rm template = Inl e)) \<and>
   (\<forall>pre. backslash \<notin> set pre \<longrightarrow>
      validate_replacement rm (pre @ [backslash]) = Inl ReError_bad_escape_end) \<and>
   (\<forall>pre c. backslash \<notin> set pre \<and> c \<in> set ASCIILETTERS \<and> c \<notin> set ''abfnrtvgLU'' \<longrightarrow>
      validate_replacement rm (pre @ [backslash, c]) = Inl (ReError_bad_escape [backslash, c])) \<and>
   (\<forall>name. py_isidentifier name \<longrightarrow>
      validate_replacement rm (backslash # ''g<'' @ name @ ''>'') =
        (case map_of (m_groupindex rm) name of
           None \<Rightarrow> Inl (IndexError_unknown_group_name name)
         | Some i \<Rightarrow> if i \<le> length (m_groups rm) then Inr ()
                     else Inl (ReError_invalid_group_reference i))) \<and>
   (\<forall>gs'. length gs' = length (m_groups rm) \<longrightarrow>
      validate_replacement (rm\<lparr>m_groups := gs'\<rparr>) template = validate_replacement rm template) \<and>
   (\<forall>i. 1 \<le> i \<and> i \<le> 9 \<and> i \<le> length (m_groups rm) \<longrightarrow>
      validate_replacement rm (backslash # str_of_nat i) = Inr () \<and>
      validate_replacement rm (backslash # CHR ''L'' # backslash # str_of_nat i) = Inr () \<and>
      validate_replacement rm (backslash # CHR ''U'' # backslash # str_of_nat i) = Inr ()) \<and>
   (\<forall>i gs. 1 \<le> i \<and> i \<le> 9 \<and> i \<le> length gs \<and> gs ! (i - 1) = None \<longrightarrow>
      expand_replacement (backslash # str_of_nat i) (enumerate 1 gs) = [] \<and>
      expand_replacement (backslash # CHR ''L'' # backslash # str_of_nat i) (enumerate 1 gs) = [] \<and>
      expand_replacement (backslash # CHR ''U'' # backslash # str_of_nat i) (enumerate 1 gs) = []) \<and>
   (\<forall>ps gs. list_all (piece_ok (length gs)) ps \<and>
            list_all (\<lambda>g. backslash \<notin> set (group_text g)) gs \<longrightarrow>
      expand_replacement (render ps) (enumerate 1 gs) = concat (map (resolve gs) ps)) \<and>
   (\<forall>i gs. gs ! (i - 1) = None \<longrightarrow>
      resolve gs (Plain i) = [] \<and> resolve gs (Lower i) = [] \<and> resolve gs (Upper i) = [])"
proof -
  let ?n = "length (m_groups rm)"
  let ?gi = "m_groupindex rm"
  let ?s = "simplified_template template"
  have a: "validate_replacement rm template = Inr () \<longleftrightarrow>
      (\<exists>n' items. parse_template n' ?gi ?s = Inr items \<and> (\<forall>i \<in> set (group_refs items). i \<le> ?n))"
  proof
    assume "validate_replacement rm template = Inr ()"
    then obtain items where p: "parse_template ?n ?gi ?s = Inr items"
      unfolding validate_replacement_iff by blast
    with parse_template_iff [OF p, of ?n] have "\<forall>i \<in> set (group_refs items). i \<le> ?n" by simp
    with p show "\<exists>n' items. parse_template n' ?gi ?s = Inr items \<and>
        (\<forall>i \<in> set (group_refs items). i \<le> ?n)" by blast
  next
    assume "\<exists>n' items. parse_template n' ?gi ?s = Inr items \<and>
        (\<forall>i \<in> set (group_refs items). i \<le> ?n)"
    then obtain n' items where p: "parse_template n' ?gi ?s = Inr items"
      and r: "\<forall>i \<in> set (group_refs items). i \<le> ?n" by blast
    from parse_template_iff [OF p, of ?n] r
    have "parse_template ?n ?gi ?s = Inr items" by simp
    then show "validate_replacement rm template = Inr ()"
      unfolding validate_replacement_iff by blast
  qed
  have b: "(\<forall>n'. \<exists>e. parse_template n' ?gi ?s = Inl e) \<longrightarrow>
      (\<exists>e. validate_replacement rm template = Inl e)"
    unfolding validate_replacement_Inl by blast
  have m1: "\<forall>pre. backslash \<notin> set pre \<longrightarrow>
      validate_replacement rm (pre @ [backslash]) = Inl ReError_bad_escape_end"
    by (simp add: validate_replacement_parse simplified_template_trailing parse_template_trailing)
  have m2: "\<forall>pre c. backslash \<notin> set pre \<and> c \<in> set ASCIILETTERS \<and> c \<notin> set ''abfnrtvgLU'' \<longrightarrow>
      validate_replacement rm (pre @ [backslash, c]) = Inl (ReError_bad_escape [backslash, c])"
  proof (intro allI impI)
    fix pre :: string and c :: char
    assume h: "backslash \<notin> set pre \<and> c \<in> set ASCIILETTERS \<and> c \<notin> set ''abfnrtvgLU''"
    then have pre: "backslash \<notin> set pre" and l: "c \<in> set ASCIILETTERS"
      and e: "c \<notin> set ''abfnrtvg''" and lu: "c \<noteq> CHR ''L''" "c \<noteq> CHR ''U''" by auto
    from l have nb: "c \<noteq> backslash" by (auto simp: ASCIILETTERS_def)
    have "backslash \<notin> set []" by simp
    from simplified_template_one_escape [OF pre this lu nb]
    show "validate_replacement rm (pre @ [backslash, c]) = Inl (ReError_bad_escape [backslash, c])"
      by (simp add: validate_replacement_parse parse_template_bad_letter [OF pre l e])
  qed
  have m3: "\<forall>name. py_isidentifier name \<longrightarrow>
      validate_replacement rm (backslash # ''g<'' @ name @ ''>'') =
        (case map_of ?gi name of
           None \<Rightarrow> Inl (IndexError_unknown_group_name name)
         | Some i \<Rightarrow> if i \<le> ?n then Inr () else Inl (ReError_invalid_group_reference i))"
  proof (intro allI impI)
    fix name :: string
    assume h: "py_isidentifier name"
    show "validate_replacement rm (backslash # ''g<'' @ name @ ''>'') =
        (case map_of ?gi name of
           None \<Rightarrow> Inl (IndexError_unknown_group_name name)
         | Some i \<Rightarrow> if i \<le> ?n then Inr () else Inl (ReError_invalid_group_reference i))"
      unfolding validate_replacement_parse simplified_template_named [OF h]
        parse_template_named [OF h]
      by (simp split: option.splits)
  qed
  have c: "\<forall>gs'. length gs' = ?n \<longrightarrow>
      validate_replacement (rm\<lparr>m_groups := gs'\<rparr>) template = validate_replacement rm template"
    by (simp add: validate_replacement_def match_expand_def split: sum.splits)
  have d: "\<forall>i. 1 \<le> i \<and> i \<le> 9 \<and> i \<le> ?n \<longrightarrow>
      validate_replacement rm (backslash # str_of_nat i) = Inr () \<and>
      validate_replacement rm (backslash # CHR ''L'' # backslash # str_of_nat i) = Inr () \<and>
      validate_replacement rm (backslash # CHR ''U'' # backslash # str_of_nat i) = Inr ()"
    unfolding validate_replacement_iff
    using parse_template_single_digit [of _ ?n ?gi]
    by (auto simp: simplified_single_digit simp del: One_nat_def)
  have e: "\<forall>i gs. 1 \<le> i \<and> i \<le> 9 \<and> i \<le> length gs \<and> gs ! (i - 1) = None \<longrightarrow>
      expand_replacement (backslash # str_of_nat i) (enumerate 1 gs) = [] \<and>
      expand_replacement (backslash # CHR ''L'' # backslash # str_of_nat i) (enumerate 1 gs) = [] \<and>
      expand_replacement (backslash # CHR ''U'' # backslash # str_of_nat i) (enumerate 1 gs) = []"
  proof (intro allI impI)
    fix i :: nat and gs :: "string option list"
    assume h: "1 \<le> i \<and> i \<le> 9 \<and> i \<le> length gs \<and> gs ! (i - 1) = None"
    then have i: "i \<le> 9" and r: "1 \<le> i" "i < 1 + length gs" "gs ! (i - 1) = None" by simp_all
    have "expand_loop (render [p]) (enumerate 1 gs) = []" if "is_ref i p" for p
      by (rule expand_loop_nonparticipating [OF i that r])
    from this [of "Plain i"] this [of "Lower i"] this [of "Upper i"]
    show "expand_replacement (backslash # str_of_nat i) (enumerate 1 gs) = [] \<and>
      expand_replacement (backslash # CHR ''L'' # backslash # str_of_nat i) (enumerate 1 gs) = [] \<and>
      expand_replacement (backslash # CHR ''U'' # backslash # str_of_nat i) (enumerate 1 gs) = []"
      by (simp add: expand_replacement_def is_ref_def)
  qed
  have f: "\<forall>ps gs. list_all (piece_ok (length gs)) ps \<and>
            list_all (\<lambda>g. backslash \<notin> set (group_text g)) gs \<longrightarrow>
      expand_replacement (render ps) (enumerate 1 gs) = concat (map (resolve gs) ps)"
  proof (intro allI impI)
    fix ps :: "piece list" and gs :: "string option list"
    assume h: "list_all (piece_ok (length gs)) ps \<and>
            list_all (\<lambda>g. backslash \<notin> set (group_text g)) gs"
    then have "list_all (piece_pending (Suc 0) (length gs)) ps"
      by (auto simp: list_all_iff dest: piece_ok_pending)
    from expand_loop_pieces [OF this] h
    show "expand_replacement (render ps) (enumerate 1 gs) = concat (map (resolve gs) ps)"
      by (simp add: expand_replacement_def resolve_from_1)
  qed
  have g: "\<forall>i gs. gs ! (i - 1) = None \<longrightarrow>
      resolve gs (Plain i) = [] \<and> resolve gs (Lower i) = [] \<and> resolve gs (Upper i) = []"
    by (simp add: group_text_def py_lower_def py_upper_def)
  from a b m1 m2 m3 c d e f g show ?thesis by blast
qed

theorem validation_checks_group_references_witness:
  "m_groups (the (projr (match_regex_string (Compiled pattern_opt_x_y) ''y'' True))) = [None] \<and>
   validate_replacement (the (projr (match_regex_string (Compiled pattern_opt_x_y) ''y'' True)))
     (backslash # CHR ''L'' # backslash # ''1-'' @ backslash # CHR ''U'' # backslash # ''1'') = Inr () \<and>
   (\<exists>e. validate_replacement (the (projr (match_regex_string (Compiled pattern_opt_x_y) ''y'' True)))
     (''x'' @ backslash # ''2'') = Inl e) \<and>
   (\<exists>e. validate_replacement (the (projr (match_regex_string (Compiled pattern_opt_x_y) ''y'' True)))
     (backslash # ''q'') = Inl e) \<and>
   validate_replacement (the (projr (match_regex_string (Compiled pattern_opt_x_y) ''y'' True)))
     (''x'' @ [backslash]) = Inl ReError_bad_escape_end \<and>
   validate_replacement (the (projr (match_regex_string (Compiled pattern_opt_x_y) ''y'' True)))
     (''x'' @ [backslash, CHR ''q'']) = Inl (ReError_bad_escape [backslash, CHR ''q'']) \<and>
   validate_replacement (the (projr (match_regex_string (Compiled pattern_opt_x_y) ''y'' True)))
     (backslash # ''g<'' @ ''foo'' @ ''>'') = Inl (IndexError_unknown_group_name ''foo'') \<and>
   validate_replacement
     \<lparr>m_start = 0, m_text = ''ab'', m_groups = [Some ''a''], m_groupindex = [(''foo'', 1)]\<rparr>
     (backslash # ''g<'' @ ''foo'' @ ''>'') = Inr () \<and>
   validate_replacement
     ((the (projr (match_regex_string (Compiled pattern_opt_x_y) ''y'' True)))\<lparr>m_groups := [Some ''x'']\<rparr>)
     (backslash # ''1'') =
   validate_replacement (the (projr (match_regex_string (Compiled pattern_opt_x_y) ''y'' True)))
     (backslash # ''1'') \<and>
   validate_replacement (the (projr (match_regex_string (Compiled pattern_opt_x_y) ''y'' True)))
     (backslash # CHR ''U'' # backslash # ''1'') = Inr () \<and>
   expand_replacement (backslash # CHR ''U'' # backslash # ''1'')
     (enumerate 1 (m_groups (the (projr (match_regex_string (Compiled pattern_opt_x_y) ''y'' True))))) = [] \<and>
   expand_replacement (render [Text (CHR ''n''), Upper 1, Text (CHR ''-''), Plain 2])
     (enumerate 1 [None, Some ''b'']) = ''n-b''"
proof -
  define rm where "rm = the (projr (match_regex_string (Compiled pattern_opt_x_y) ''y'' True))"
  define rn :: sre_match
    where "rn = \<lparr>m_start = 0, m_text = ''ab'', m_groups = [Some ''a''], m_groupindex = [(''foo'', 1)]\<rparr>"
  define T where "T = backslash # CHR ''L'' # backslash # ''1-'' @ backslash # CHR ''U'' # backslash # ''1''"
  have g: "m_groups rm = [None]" unfolding rm_def by code_simp
  have gi: "m_groupindex rm = []" unfolding rm_def by code_simp
  have s1: "str_of_nat 1 = ''1''" by code_simp
  have p: "parse_template 5 (m_groupindex rm) (simplified_template T) =
      Inr [GroupRef 1, Literal ''-'', GroupRef 1]"
    unfolding gi T_def by code_simp
  have r: "\<forall>i \<in> set (group_refs [GroupRef 1, Literal ''-'', GroupRef 1]). i \<le> length (m_groups rm)"
    unfolding g by simp
  note inst = validation_checks_group_references [of rm T]
  from inst p r have v: "validate_replacement rm T = Inr ()" by blast
  have s2: "simplified_template (''x'' @ backslash # ''2'') = ''x'' @ backslash # ''2''" by code_simp
  have pall: "parse_template n' [] [CHR ''x'', backslash, CHR ''2''] =
      (if 2 \<le> n' then Inr [Literal ''x'', GroupRef 2] else Inl (ReError_invalid_group_reference 2))" for n'
    by (simp add: parse_template_def parse_loop.simps [of n' "[]"] tok_get_def parse_item_def
        parse_digit_def next_in_def addgroup_def DIGITS_def int_of_digits_def digit_val_def)
  then have p2: "parse_template 2 (m_groupindex rm) (simplified_template (''x'' @ backslash # ''2'')) =
      Inr [Literal ''x'', GroupRef 2]"
    unfolding s2 gi by simp
  from validation_checks_group_references [of rm "''x'' @ backslash # ''2''"]
  have "validate_replacement rm (''x'' @ backslash # ''2'') = Inr () \<longleftrightarrow>
      (\<exists>n' items.
         parse_template n' (m_groupindex rm) (simplified_template (''x'' @ backslash # ''2'')) = Inr items \<and>
         (\<forall>i \<in> set (group_refs items). i \<le> length (m_groups rm)))"
    by blast
  moreover have "\<not> (\<exists>n' items.
         parse_template n' (m_groupindex rm) (simplified_template (''x'' @ backslash # ''2'')) = Inr items \<and>
         (\<forall>i \<in> set (group_refs items). i \<le> length (m_groups rm)))"
    unfolding s2 gi g by (auto simp: pall split: if_splits)
  ultimately have "validate_replacement rm (''x'' @ backslash # ''2'') \<noteq> Inr ()" by blast
  then have v2: "\<exists>e. validate_replacement rm (''x'' @ backslash # ''2'') = Inl e"
    by (cases "validate_replacement rm (''x'' @ backslash # ''2'')") auto
  have sq: "simplified_template (backslash # ''q'') = backslash # ''q''" by code_simp
  have pq: "\<forall>n'. \<exists>e. parse_template n' (m_groupindex rm) (simplified_template (backslash # ''q'')) = Inl e"
    unfolding sq
    by (simp add: parse_template_def parse_loop.simps [of _ _ "(Some [backslash, CHR ''q''], [])"]
        tok_get_def parse_item_def DIGITS_def ESCAPES_def ASCIILETTERS_def)
  from validation_checks_group_references [of rm "backslash # ''q''"] pq
  have v3: "\<exists>e. validate_replacement rm (backslash # ''q'') = Inl e" by blast
  from inst have "\<forall>pre. backslash \<notin> set pre \<longrightarrow>
      validate_replacement rm (pre @ [backslash]) = Inl ReError_bad_escape_end" by blast
  from this [rule_format, of "''x''"]
  have vx: "validate_replacement rm (''x'' @ [backslash]) = Inl ReError_bad_escape_end" by simp
  from inst have "\<forall>pre c. backslash \<notin> set pre \<and> c \<in> set ASCIILETTERS \<and> c \<notin> set ''abfnrtvgLU'' \<longrightarrow>
      validate_replacement rm (pre @ [backslash, c]) = Inl (ReError_bad_escape [backslash, c])" by blast
  from this [rule_format, of "''x''" "CHR ''q''"]
  have vq: "validate_replacement rm (''x'' @ [backslash, CHR ''q'']) =
      Inl (ReError_bad_escape [backslash, CHR ''q''])"
    by (simp add: ASCIILETTERS_def)
  have idf: "py_isidentifier ''foo''" by code_simp
  from inst have "\<forall>name. py_isidentifier name \<longrightarrow>
      validate_replacement rm (backslash # ''g<'' @ name @ ''>'') =
        (case map_of (m_groupindex rm) name of
           None \<Rightarrow> Inl (IndexError_unknown_group_name name)
         | Some i \<Rightarrow> if i \<le> length (m_groups rm) then Inr ()
                     else Inl (ReError_invalid_group_reference i))" by blast
  from this [rule_format, OF idf]
  have vf: "validate_replacement rm (backslash # ''g<'' @ ''foo'' @ ''>'') =
      Inl (IndexError_unknown_group_name ''foo'')"
    unfolding gi by simp
  from validation_checks_group_references [of rn T]
  have "\<forall>name. py_isidentifier name \<longrightarrow>
      validate_replacement rn (backslash # ''g<'' @ name @ ''>'') =
        (case map_of (m_groupindex rn) name of
           None \<Rightarrow> Inl (IndexError_unknown_group_name name)
         | Some i \<Rightarrow> if i \<le> length (m_groups rn) then Inr ()
                     else Inl (ReError_invalid_group_reference i))" by blast
  from this [rule_format, OF idf]
  have vn: "validate_replacement rn (backslash # ''g<'' @ ''foo'' @ ''>'') = Inr ()"
    unfolding rn_def by simp
  from validation_checks_group_references [of rm "backslash # ''1''"]
  have "\<forall>gs'. length gs' = length (m_groups rm) \<longrightarrow>
      validate_replacement (rm\<lparr>m_groups := gs'\<rparr>) (backslash # ''1'') =
      validate_replacement rm (backslash # ''1'')" by blast
  from this [rule_format, of "[Some ''x'']"] g
  have vi: "validate_replacement (rm\<lparr>m_groups := [Some ''x'']\<rparr>) (backslash # ''1'') =
      validate_replacement rm (backslash # ''1'')" by simp
  from inst have "\<forall>i. 1 \<le> i \<and> i \<le> 9 \<and> i \<le> length (m_groups rm) \<longrightarrow>
      validate_replacement rm (backslash # str_of_nat i) = Inr () \<and>
      validate_replacement rm (backslash # CHR ''L'' # backslash # str_of_nat i) = Inr () \<and>
      validate_replacement rm (backslash # CHR ''U'' # backslash # str_of_nat i) = Inr ()" by blast
  from this [rule_format, of 1] g
  have vu: "validate_replacement rm (backslash # CHR ''U'' # backslash # str_of_nat 1) = Inr ()" by simp
  from inst have "\<forall>i gs. 1 \<le> i \<and> i \<le> 9 \<and> i \<le> length gs \<and> gs ! (i - 1) = None \<longrightarrow>
      expand_replacement (backslash # str_of_nat i) (enumerate 1 gs) = [] \<and>
      expand_replacement (backslash # CHR ''L'' # backslash # str_of_nat i) (enumerate 1 gs) = [] \<and>
      expand_replacement (backslash # CHR ''U'' # backslash # str_of_nat i) (enumerate 1 gs) = []" by blast
  from this [rule_format, of 1 "m_groups rm"] g
  have eu: "expand_replacement (backslash # CHR ''U'' # backslash # str_of_nat 1) (enumerate 1 (m_groups rm)) = []"
    by simp
  from inst have "\<forall>ps gs. list_all (piece_ok (length gs)) ps \<and>
            list_all (\<lambda>g. backslash \<notin> set (group_text g)) gs \<longrightarrow>
      expand_replacement (render ps) (enumerate 1 gs) = concat (map (resolve gs) ps)" by blast
  from this [rule_format, of "[None, Some ''b'']" "[Text (CHR ''n''), Upper 1, Text (CHR ''-''), Plain 2]"]
  have "expand_replacement (render [Text (CHR ''n''), Upper 1, Text (CHR ''-''), Plain 2])
      (enumerate 1 [None, Some ''b'']) =
      concat (map (resolve [None, Some ''b'']) [Text (CHR ''n''), Upper 1, Text (CHR ''-''), Plain 2])"
    by (simp add: group_text_def)
  also have "\<dots> = ''n-b''" by code_simp
  finally have ep: "expand_replacement (render [Text (CHR ''n''), Upper 1, Text (CHR ''-''), Plain 2])
      (enumerate 1 [None, Some ''b'']) = ''n-b''" .
  from g v v2 v3 vx vq vf vn vi vu eu ep show ?thesis unfolding s1 rm_def rn_def T_def by blast
qed

text \<open>
  The claim as stated fails. A template that ends in a single backslash, or holds the
  unknown escape \<^verbatim>\<open>\q\<close>, refers to no group at all, so every reference in it is to an
  existing group; yet validation raises, for the library refuses the template as
  malformed. And with the pattern \<^verbatim>\<open>(A)(b)(c)(d)(e)(f)(g)(h)(i)(J)?\<close> and the file name
  \<^verbatim>\<open>Abcdefghi\<close>, the template \<^verbatim>\<open>\10\<close> refers to group 10, which exists and took no part
  in the match: validation passes, but expansion yields \<^verbatim>\<open>A0\<close>, not the empty string.
\<close>

theorem validation_counterexample:
  "(case match_filename ''a1.txt'' (Compiled pattern_a_digit) (Some (''x'' @ [backslash])) True 0 of
      Inl e \<Rightarrow> Some e | Inr m \<Rightarrow> None) = Some ReError_bad_escape_end \<and>
   simplified_template (''x'' @ [backslash]) = ''x'' @ [backslash] \<and>
   set (''x'' @ [backslash]) \<inter> set (CHR ''g'' # DIGITS) = {} \<and>
   (case match_filename ''a1.txt'' (Compiled pattern_a_digit) (Some (backslash # ''q'')) True 0 of
      Inl e \<Rightarrow> Some e | Inr m \<Rightarrow> None) = Some (ReError_bad_escape (backslash # ''q'')) \<and>
   simplified_template (backslash # ''q'') = backslash # ''q'' \<and>
   set (backslash # ''q'') \<inter> set (CHR ''g'' # DIGITS) = {} \<and>
   (case match_filename ''Abcdefghi'' (Compiled pattern_tenth_optional) (Some (backslash # ''10'')) True 0 of
      Inr (Some m) \<Rightarrow> (length (groups m), groups m ! 9, name_to m)
    | _ \<Rightarrow> (0, (0, None), None)) = (10, (10, None), Some ''A0'') \<and>
   parse_template 10 [] (simplified_template (backslash # ''10'')) = Inr [GroupRef 10]"
  by code_simp

end
